theory Spec2Isabelle
  imports Main "HOL-Library.Monad_Syntax"
begin

section \<open>The allocator of mem.c\<close>

text \<open>
  The model follows \<^verbatim>\<open>src/mem.c\<close> statement by statement.

  \<^item> A pointer is a byte address (an \<^typ>\<open>int\<close>), \<open>NULL\<close> is address 0. Pointer
    arithmetic on a \<^verbatim>\<open>block_header*\<close> moves in units of \<^verbatim>\<open>sizeof(block_header)\<close>.
  \<^item> \<^verbatim>\<open>sizeof(block_header)\<close> and \<^verbatim>\<open>getpagesize()\<close> depend on the platform (8 bytes
    with 32-bit pointers, 16 with 64-bit pointers); they are the parameters \<open>hdr\<close> and
    \<open>pagesize\<close> of the model.
  \<^item> Memory is a store from addresses to headers: \<open>heap s a\<close> is what the code reads
    through a \<^verbatim>\<open>block_header*\<close> equal to \<open>a\<close>. The blocks of the list lie a multiple
    of \<open>hdr\<close> above the base of the region (the code only ever adds multiples of the
    header size to the base), so two of them never overlap in part. An address given to
    \<^verbatim>\<open>Mem_Free\<close> that is no block is read as a header of its own: what it shares with
    the bytes of a block is not modelled.
  \<^item> A call has no result (\<open>None\<close>) where the C program has none: it dereferences
    \<open>NULL\<close>, a signed addition leaves the range of \<^verbatim>\<open>int\<close> (undefined behaviour in C),
    or a walk over the list never ends.
\<close>

type_synonym addr = int

definition NULL :: addr where
  "NULL = 0"

definition MAP_FAILED :: addr where
  "MAP_FAILED = - 1"

record block_header =
  "next" :: addr
  size_status :: int

type_synonym memory = "addr \<Rightarrow> block_header"

record state =
  list_head :: addr
  allocated_once :: int
  heap :: memory

record platform =
  hdr :: int
  pagesize :: int

subsection \<open>C arithmetic on int\<close>

definition INT_MIN :: int where
  "INT_MIN = - (2 ^ 31)"

definition INT_MAX :: int where
  "INT_MAX = 2 ^ 31 - 1"

text \<open>The result of a signed operation, when it is representable.\<close>

definition chk :: "int \<Rightarrow> int option" where
  "chk x = (if INT_MIN \<le> x \<and> x \<le> INT_MAX then Some x else None)"

text \<open>C's \<^verbatim>\<open>/\<close> and \<^verbatim>\<open>%\<close> truncate towards zero.\<close>

definition c_div :: "int \<Rightarrow> int \<Rightarrow> int" where
  "c_div a b = sgn a * sgn b * (\<bar>a\<bar> div \<bar>b\<bar>)"

definition c_mod :: "int \<Rightarrow> int \<Rightarrow> int" where
  "c_mod a b = sgn a * (\<bar>a\<bar> mod \<bar>b\<bar>)"

subsection \<open>Field updates\<close>

definition set_next :: "memory \<Rightarrow> addr \<Rightarrow> addr \<Rightarrow> memory" where
  "set_next h a v = h(a := (h a)\<lparr>next := v\<rparr>)"

definition set_size :: "memory \<Rightarrow> addr \<Rightarrow> int \<Rightarrow> memory" where
  "set_size h a v = h(a := (h a)\<lparr>size_status := v\<rparr>)"

subsection \<open>Mem_Init\<close>

text \<open>
  \<open>fd\<close> is what \<^verbatim>\<open>open("/dev/zero", O_RDWR)\<close> returns and \<open>space_ptr\<close> what \<^verbatim>\<open>mmap\<close>
  returns; a mapping of \<^verbatim>\<open>/dev/zero\<close> reads as zero.
\<close>

definition zero_fill :: "memory \<Rightarrow> addr \<Rightarrow> int \<Rightarrow> memory" where
  "zero_fill h space_ptr alloc_size =
     (\<lambda>a. if space_ptr \<le> a \<and> a < space_ptr + alloc_size
          then \<lparr>next = NULL, size_status = 0\<rparr> else h a)"

definition Mem_Init :: "platform \<Rightarrow> int \<Rightarrow> addr \<Rightarrow> int \<Rightarrow> state \<Rightarrow> (int \<times> state) option" where
  "Mem_Init pf fd space_ptr sizeOfRegion s =
     (if 0 \<noteq> allocated_once s then Some (- 1, s)
      else if sizeOfRegion \<le> 0 then Some (- 1, s)
      else if pagesize pf = 0 then None
      else do {
        let padsize = c_mod sizeOfRegion (pagesize pf);
        let padsize = c_mod (pagesize pf - padsize) (pagesize pf);
        alloc_size \<leftarrow> chk (sizeOfRegion + padsize);
        if - 1 = fd then Some (- 1, s)
        else if MAP_FAILED = space_ptr then Some (- 1, s\<lparr>allocated_once := 0\<rparr>)
        else do {
          let h = zero_fill (heap s) space_ptr alloc_size;
          let h = set_next h space_ptr NULL;
          let h = set_size h space_ptr (alloc_size - hdr pf);
          Some (0, \<lparr>list_head = space_ptr, allocated_once = 1, heap = h\<rparr>)
        }
      })"

subsection \<open>Mem_Alloc\<close>

text \<open>
  The block chosen by the search is split or taken whole (lines 143 to 160 of the
  source, and again lines 173 to 186 for the last block: the same statements). The
  block has passed the size test, so its size is even and not below \<open>sizeWithHead\<close>:
  the subtraction and the two increments stay in the range of \<^verbatim>\<open>int\<close>. The quotient
  \<^verbatim>\<open>sizeWithHead / (int)sizeof(block_header)\<close> is added to a \<^verbatim>\<open>block_header*\<close>, that is,
  multiplied by the header size again.
\<close>

definition carve :: "platform \<Rightarrow> int \<Rightarrow> int \<Rightarrow> memory \<Rightarrow> addr \<Rightarrow> addr \<times> memory" where
  "carve pf sizeBy4 sizeWithHead h ptr =
     (if size_status (h ptr) - sizeWithHead \<ge> hdr pf + 4 then
        let newBlock = ptr + c_div sizeWithHead (hdr pf) * hdr pf;
            h = set_next h newBlock (next (h ptr));
            h = set_next h ptr newBlock;
            h = set_size h newBlock (size_status (h ptr) - sizeWithHead);
            h = set_size h ptr sizeBy4;
            h = set_size h ptr (size_status (h ptr) + 1)
        in (ptr + hdr pf, h)
      else
        (ptr + hdr pf, set_size h ptr (size_status (h ptr) + 1)))"

partial_function (option) alloc_loop ::
  "platform \<Rightarrow> int \<Rightarrow> int \<Rightarrow> memory \<Rightarrow> addr \<Rightarrow> (addr \<times> memory) option" where
  "alloc_loop pf sizeBy4 sizeWithHead h ptr =
     (if ptr = NULL then None
      else if next (h ptr) \<noteq> NULL then
        (if c_mod (size_status (h ptr)) 2 = 0 then
           (if size_status (h ptr) \<ge> sizeWithHead
            then Some (carve pf sizeBy4 sizeWithHead h ptr)
            else alloc_loop pf sizeBy4 sizeWithHead h (next (h ptr)))
         else alloc_loop pf sizeBy4 sizeWithHead h (next (h ptr)))
      else
        (if c_mod (size_status (h ptr)) 2 = 0 then
           (if size_status (h ptr) \<ge> sizeWithHead
            then Some (carve pf sizeBy4 sizeWithHead h ptr)
            else Some (NULL, h))
         else Some (NULL, h)))"

declare alloc_loop.simps [code]

definition round4 :: "int \<Rightarrow> int option" where
  "round4 sz = (if c_mod sz 4 > 0 then chk (sz + (4 - c_mod sz 4)) else Some sz)"

definition Mem_Alloc :: "platform \<Rightarrow> int \<Rightarrow> state \<Rightarrow> (addr \<times> state) option" where
  "Mem_Alloc pf sz s =
     (if sz \<le> 0 then Some (NULL, s)
      else do {
        sizeBy4 \<leftarrow> round4 sz;
        sizeWithHead \<leftarrow> chk (sizeBy4 + hdr pf);
        (r, h) \<leftarrow> alloc_loop pf sizeBy4 sizeWithHead (heap s) (list_head s);
        Some (r, s\<lparr>heap := h\<rparr>)
      })"

subsection \<open>Mem_Free\<close>

text \<open>The walk that looks for the block before \<open>newPtr\<close>; it returns \<open>prev\<close>.\<close>

partial_function (option) find_prev ::
  "memory \<Rightarrow> addr \<Rightarrow> addr \<Rightarrow> addr \<Rightarrow> int \<Rightarrow> addr option" where
  "find_prev h newPtr temp prev found =
     (if temp \<noteq> NULL \<and> found = 0 then
        (if temp = newPtr then find_prev h newPtr temp prev 1
         else find_prev h newPtr (next (h temp)) temp found)
      else Some prev)"

declare find_prev.simps [code]

text \<open>
  Lines 227 and 228: \<^verbatim>\<open>newPtr->size_status += newPtr->next->size_status + (int)sizeof(block_header);\<close>
  then \<^verbatim>\<open>newPtr->next = newPtr->next->next;\<close>. The caller has tested \<^verbatim>\<open>newPtr->next != NULL\<close>.
\<close>

definition coalesce_next :: "platform \<Rightarrow> memory \<Rightarrow> addr \<Rightarrow> memory option" where
  "coalesce_next pf h newPtr =
     do {
       t \<leftarrow> chk (size_status (h (next (h newPtr))) + hdr pf);
       v \<leftarrow> chk (size_status (h newPtr) + t);
       let h = set_size h newPtr v;
       Some (set_next h newPtr (next (h (next (h newPtr)))))
     }"

text \<open>
  Lines 260 and 261:
  \<^verbatim>\<open>prev->size_status = prev->size_status + prev->next->size_status + (int)sizeof(block_header);\<close>
  then \<^verbatim>\<open>prev->next = prev->next->next;\<close>. Nothing tests \<^verbatim>\<open>prev->next\<close> before it is
  dereferenced.
\<close>

definition coalesce_prev :: "platform \<Rightarrow> memory \<Rightarrow> addr \<Rightarrow> memory option" where
  "coalesce_prev pf h prev =
     (if next (h prev) = NULL then None
      else do {
        t \<leftarrow> chk (size_status (h prev) + size_status (h (next (h prev))));
        v \<leftarrow> chk (t + hdr pf);
        let h = set_size h prev v;
        Some (set_next h prev (next (h (next (h prev)))))
      })"

text \<open>Lines 225 to 230: the block after \<open>newPtr\<close> is absorbed when it is free.\<close>

definition forward :: "platform \<Rightarrow> memory \<Rightarrow> addr \<Rightarrow> memory option" where
  "forward pf h newPtr =
     (if next (h newPtr) \<noteq> NULL then
        (if c_mod (size_status (h (next (h newPtr)))) 2 = 0
         then coalesce_next pf h newPtr else Some h)
      else Some h)"

text \<open>Lines 258 to 263: \<open>prev\<close>, when it is free, absorbs the block after it.\<close>

definition backward :: "platform \<Rightarrow> memory \<Rightarrow> addr \<Rightarrow> memory option" where
  "backward pf h prev =
     (if prev \<noteq> NULL then
        (if c_mod (size_status (h prev)) 2 = 0
         then coalesce_prev pf h prev else Some h)
      else Some h)"

definition Mem_Free :: "platform \<Rightarrow> addr \<Rightarrow> state \<Rightarrow> (int \<times> state) option" where
  "Mem_Free pf ptr s =
     (if ptr = NULL then Some (- 1, s)
      else
        let newPtr = ptr - hdr pf in
        if newPtr = NULL then None
        else if c_mod (size_status (heap s newPtr)) 2 \<noteq> 1 then Some (- 1, s)
        else do {
          let h = set_size (heap s) newPtr (size_status (heap s newPtr) + (- 1));
          h \<leftarrow> forward pf h newPtr;
          if newPtr = list_head s then Some (0, s\<lparr>heap := h\<rparr>)
          else do {
            prev \<leftarrow> find_prev h newPtr (list_head s) NULL 0;
            h \<leftarrow> backward pf h prev;
            Some (0, s\<lparr>heap := h\<rparr>)
          }
        })"

subsection \<open>Reading a header, as Mem_Dump does\<close>

text \<open>
  Lines 303 to 308 of \<^verbatim>\<open>Mem_Dump\<close>: a block is busy when \<^verbatim>\<open>Size & 1\<close> is not zero, and
  its size is then \<^verbatim>\<open>Size - 1\<close>.
\<close>

definition busy :: "int \<Rightarrow> bool" where
  "busy v \<longleftrightarrow> and v 1 \<noteq> 0"

definition payload :: "int \<Rightarrow> int" where
  "payload v = (if busy v then v - 1 else v)"

text \<open>Lines 71 to 74 of \<^verbatim>\<open>Mem_Init\<close>: the size of the region that is mapped.\<close>

definition region_size :: "platform \<Rightarrow> int \<Rightarrow> int" where
  "region_size pf sizeOfRegion =
     sizeOfRegion + c_mod (pagesize pf - c_mod sizeOfRegion (pagesize pf)) (pagesize pf)"

subsection \<open>Platforms, call sequences, the block list\<close>

text \<open>
  What the proofs ask of a platform: headers and pages are positive multiples of 4 and a
  page holds a header. On a platform with 32-bit pointers the header has 8 bytes.
\<close>

definition platform_ok :: "platform \<Rightarrow> bool" where
  "platform_ok pf \<longleftrightarrow>
     0 < hdr pf \<and> 4 dvd hdr pf \<and> hdr pf \<le> pagesize pf \<and> 4 dvd pagesize pf"

definition pf32 :: platform where
  "pf32 = \<lparr>hdr = 8, pagesize = 4096\<rparr>"

text \<open>With 64-bit pointers the header has 16 bytes (pointer, int, padding).\<close>

definition pf64 :: platform where
  "pf64 = \<lparr>hdr = 16, pagesize = 4096\<rparr>"

definition zero_memory :: memory where
  "zero_memory = (\<lambda>a. \<lparr>next = NULL, size_status = 0\<rparr>)"

text \<open>The globals as the program starts: \<^verbatim>\<open>list_head = NULL\<close>, \<^verbatim>\<open>allocated_once = 0\<close>.\<close>

definition start :: state where
  "start = \<lparr>list_head = NULL, allocated_once = 0, heap = zero_memory\<rparr>"

definition fresh :: "state \<Rightarrow> bool" where
  "fresh s \<longleftrightarrow> list_head s = NULL \<and> allocated_once s = 0"

text \<open>
  The states a program can be in after a call of \<^verbatim>\<open>Mem_Init\<close> has returned 0, whatever
  calls follow. \<^verbatim>\<open>mmap\<close> returns \<open>MAP_FAILED\<close> or the address of the mapping, which is
  above 0.
\<close>

inductive reachable :: "platform \<Rightarrow> state \<Rightarrow> bool" for pf :: platform where
  first: "fresh s0 \<Longrightarrow> 0 < space_ptr \<Longrightarrow> Mem_Init pf fd space_ptr n s0 = Some (0, s)
            \<Longrightarrow> reachable pf s"
| init: "reachable pf s \<Longrightarrow> Mem_Init pf fd space_ptr n s = Some (r, s') \<Longrightarrow> reachable pf s'"
| alloc: "reachable pf s \<Longrightarrow> Mem_Alloc pf n s = Some (p, s') \<Longrightarrow> reachable pf s'"
| free: "reachable pf s \<Longrightarrow> Mem_Free pf p s = Some (r, s') \<Longrightarrow> reachable pf s'"

text \<open>\<open>seg h a as b\<close>: following \<open>next\<close> from \<open>a\<close> visits the blocks \<open>as\<close> and arrives at \<open>b\<close>.\<close>

fun seg :: "memory \<Rightarrow> addr \<Rightarrow> addr list \<Rightarrow> addr \<Rightarrow> bool" where
  "seg h a [] b \<longleftrightarrow> a = b"
| "seg h a (x # xs) b \<longleftrightarrow> a = x \<and> a \<noteq> NULL \<and> seg h (next (h a)) xs b"

text \<open>The block list: the blocks from the head to the one whose \<open>next\<close> is \<open>NULL\<close>.\<close>

definition chain :: "memory \<Rightarrow> addr \<Rightarrow> addr list \<Rightarrow> bool" where
  "chain h a as \<longleftrightarrow> seg h a as NULL"

text \<open>Call sequences, with what each call returns.\<close>

datatype call = Init int addr int | Alloc int | Free addr

fun exec :: "platform \<Rightarrow> call \<Rightarrow> state \<Rightarrow> (int \<times> state) option" where
  "exec pf (Init fd space_ptr n) s = Mem_Init pf fd space_ptr n s"
| "exec pf (Alloc n) s = Mem_Alloc pf n s"
| "exec pf (Free p) s = Mem_Free pf p s"

fun run :: "platform \<Rightarrow> call list \<Rightarrow> state \<Rightarrow> (int list \<times> state) option" where
  "run pf [] s = Some ([], s)"
| "run pf (c # cs) s =
     do { (r, s) \<leftarrow> exec pf c s; (rs, s) \<leftarrow> run pf cs s; Some (r # rs, s) }"

text \<open>
  The first \<open>n\<close> blocks that a walk from \<open>a\<close> meets (the walk of \<^verbatim>\<open>Mem_Dump\<close>, cut after
  \<open>n\<close> blocks): address, \<open>size_status\<close> and \<open>next\<close> of each.
\<close>

fun dump :: "nat \<Rightarrow> memory \<Rightarrow> addr \<Rightarrow> (addr \<times> int \<times> addr) list" where
  "dump 0 h a = []"
| "dump (Suc n) h a =
     (if a = NULL then [] else (a, size_status (h a), next (h a)) # dump n h (next (h a)))"

definition blocks :: "nat \<Rightarrow> state \<Rightarrow> (addr \<times> int \<times> addr) list" where
  "blocks n s = dump n (heap s) (list_head s)"

text \<open>The state after \<^verbatim>\<open>Mem_Init(1024)\<close> on that platform, with the region mapped at 4096.\<close>

definition booted :: state where
  "booted = \<lparr>list_head = 4096, allocated_once = 1,
     heap = set_size (set_next (zero_fill zero_memory 4096 4096) 4096 NULL) 4096 4088\<rparr>"

text \<open>
  The state after \<^verbatim>\<open>Mem_Init(1024)\<close> and \<^verbatim>\<open>Mem_Alloc(16)\<close>, which returns 4104, once the
  caller has stored -1 in the second word of its 16 bytes (at 4108, where a header at
  4104 would keep \<open>size_status\<close>).
\<close>

definition scribbled :: state where
  "scribbled = \<lparr>list_head = 4096, allocated_once = 1,
     heap = (heap booted)(4120 := \<lparr>next = NULL, size_status = 4064\<rparr>,
                          4096 := \<lparr>next = 4120, size_status = 17\<rparr>,
                          4104 := \<lparr>next = NULL, size_status = - 1\<rparr>)\<rparr>"

text \<open>
  The sum that the coverage property speaks of, over the blocks \<open>as\<close>, and the property
  itself: the blocks of the list add up to \<open>R\<close>.
\<close>

definition total :: "platform \<Rightarrow> memory \<Rightarrow> addr list \<Rightarrow> int" where
  "total pf h as = sum_list (map (\<lambda>a. payload (size_status (h a)) + hdr pf) as)"

definition coverage :: "platform \<Rightarrow> state \<Rightarrow> int \<Rightarrow> bool" where
  "coverage pf s R \<longleftrightarrow> (\<exists>as. chain (heap s) (list_head s) as \<and> total pf (heap s) as = R)"

text \<open>
  The request rounded up to a multiple of 4, in the words of the specification: the least
  multiple of 4 that is not below \<open>sz\<close>. \<^verbatim>\<open>Mem_Alloc\<close> computes it as \<open>round4\<close>.
\<close>

definition rounded4 :: "int \<Rightarrow> int" where
  "rounded4 sz = (sz + 3) div 4 * 4"

text \<open>The size test of the search, lines 137 and 140: the block is free and large enough.\<close>

definition fits :: "int \<Rightarrow> int \<Rightarrow> bool" where
  "fits sizeWithHead v \<longleftrightarrow> c_mod v 2 = 0 \<and> v \<ge> sizeWithHead"

text \<open>No two blocks that follow each other in the list \<open>as\<close> are both free.\<close>

fun no_adjacent_free :: "memory \<Rightarrow> addr list \<Rightarrow> bool" where
  "no_adjacent_free h (a # b # as) \<longleftrightarrow>
     (busy (size_status (h a)) \<or> busy (size_status (h b))) \<and> no_adjacent_free h (b # as)"
| "no_adjacent_free h [a] \<longleftrightarrow> True"
| "no_adjacent_free h [] \<longleftrightarrow> True"

text \<open>
  The list after a \<^verbatim>\<open>Mem_Free\<close> of the block \<open>b\<close> that stood between \<open>pre\<close> and \<open>post\<close>:
  \<open>b\<close> is gone when the block before it was free, and the block after it is gone when it
  was free.
\<close>

definition after_free :: "memory \<Rightarrow> addr list \<Rightarrow> addr \<Rightarrow> addr list \<Rightarrow> addr list" where
  "after_free h pre b post =
     pre @ (if pre \<noteq> [] \<and> \<not> busy (size_status (h (last pre))) then [] else [b])
         @ (if post \<noteq> [] \<and> \<not> busy (size_status (h (hd post))) then tl post else post)"

text \<open>
  What coalescing has to leave behind. Freeing \<open>b\<close> gives its payload, \<open>size_status - 1\<close>,
  and, when the block after it is free, the payload and the header of that block as well.
\<close>

definition freed_size :: "platform \<Rightarrow> memory \<Rightarrow> addr \<Rightarrow> addr list \<Rightarrow> int" where
  "freed_size pf h b post =
     size_status (h b) - 1 +
     (if post \<noteq> [] \<and> \<not> busy (size_status (h (hd post)))
      then size_status (h (hd post)) + hdr pf else 0)"

text \<open>
  The block that holds these bytes afterwards: the block before \<open>b\<close> when it is free,
  else \<open>b\<close> itself. In the first case it has its own payload, a header and the bytes of
  \<open>b\<close>.
\<close>

definition absorber :: "memory \<Rightarrow> addr list \<Rightarrow> addr \<Rightarrow> addr" where
  "absorber h pre b =
     (if pre \<noteq> [] \<and> \<not> busy (size_status (h (last pre))) then last pre else b)"

definition merged_size :: "platform \<Rightarrow> memory \<Rightarrow> addr list \<Rightarrow> addr \<Rightarrow> addr list \<Rightarrow> int" where
  "merged_size pf h pre b post =
     (if pre \<noteq> [] \<and> \<not> busy (size_status (h (last pre)))
      then size_status (h (last pre)) + freed_size pf h b post + hdr pf
      else freed_size pf h b post)"

text \<open>\<open>listed h a x\<close>: a walk from \<open>a\<close> along \<open>next\<close> meets the block \<open>x\<close> (before any \<open>NULL\<close>).\<close>

inductive listed :: "memory \<Rightarrow> addr \<Rightarrow> addr \<Rightarrow> bool" for h :: memory where
  here: "a \<noteq> NULL \<Longrightarrow> listed h a a"
| further: "a \<noteq> NULL \<Longrightarrow> listed h (next (h a)) x \<Longrightarrow> listed h a x"

text \<open>The payload size that a \<open>size_status\<close> encodes is a non-negative multiple of 4.\<close>

definition size_ok :: "int \<Rightarrow> bool" where
  "size_ok v \<longleftrightarrow> 0 \<le> payload v \<and> 4 dvd payload v"

text \<open>
  A set of blocks that is closed under \<open>next\<close>, with addresses above 0 and such sizes.
\<close>

definition well_sized :: "addr set \<Rightarrow> memory \<Rightarrow> bool" where
  "well_sized W h \<longleftrightarrow>
     (\<forall>a\<in>W. 0 < a \<and> size_ok (size_status (h a)) \<and> (next (h a) = NULL \<or> next (h a) \<in> W))"

subsection \<open>Arithmetic facts\<close>

lemma chk_Some [simp]: "INT_MIN \<le> x \<Longrightarrow> x \<le> INT_MAX \<Longrightarrow> chk x = Some x"
  by (simp add: chk_def)

lemma chk_eq_Some: "chk x = Some y \<longleftrightarrow> y = x \<and> INT_MIN \<le> x \<and> x \<le> INT_MAX"
  by (auto simp: chk_def)

lemma c_mod_nonneg: "0 \<le> a \<Longrightarrow> 0 < b \<Longrightarrow> c_mod a b = a mod b"
  by (cases "a = 0") (simp_all add: c_mod_def)

lemma c_div_nonneg: "0 \<le> a \<Longrightarrow> 0 < b \<Longrightarrow> c_div a b = a div b"
  by (cases "a = 0") (simp_all add: c_div_def)

lemma c_mod_2_eq_0: "c_mod a 2 = 0 \<longleftrightarrow> even a"
proof (cases "a = 0")
  case False
  then show ?thesis
    by (simp add: c_mod_def sgn_if) presburger
qed (simp add: c_mod_def)

lemma c_mod_2_eq_1: "c_mod a 2 = 1 \<longleftrightarrow> 0 < a \<and> odd a"
proof -
  consider "a = 0" | "0 < a" | "a < 0" by linarith
  then show ?thesis
  proof cases
    case 3
    then have "c_mod a 2 \<le> 0"
      by (simp add: c_mod_def sgn_if)
    with 3 show ?thesis by simp
  qed (simp_all add: c_mod_def sgn_if, presburger)
qed

lemma busy_iff_odd: "busy v \<longleftrightarrow> odd v"
  by (simp add: busy_def and_one_eq mod_2_eq_odd)


subsection \<open>Single steps\<close>

lemma set_next_apply:
  "set_next h a v b = (if b = a then \<lparr>next = v, size_status = size_status (h a)\<rparr> else h b)"
  by (simp add: set_next_def)

lemma set_size_apply:
  "set_size h a v b = (if b = a then \<lparr>next = next (h a), size_status = v\<rparr> else h b)"
  by (simp add: set_size_def)

lemma c_div_pos:
  assumes "0 < b" "b \<le> a"
  shows "0 < c_div a b * b" "c_div a b * b \<le> a"
proof -
  have d: "c_div a b = a div b" using assms by (simp add: c_div_nonneg)
  have "0 < a div b" using assms by (simp add: pos_imp_zdiv_pos_iff)
  then show "0 < c_div a b * b" using assms d by simp
  have "a div b * b = a - a mod b" by (simp add: minus_mod_eq_div_mult)
  then have "a div b * b \<le> a" using assms by simp
  then show "c_div a b * b \<le> a" by (simp add: d)
qed

lemma round4_Some:
  assumes "0 < sz" "round4 sz = Some b"
  shows "4 dvd b" "sz \<le> b" "b < sz + 4"
proof -
  have m: "c_mod sz 4 = sz mod 4" using assms by (simp add: c_mod_nonneg)
  have b: "b = (if sz mod 4 > 0 then sz + (4 - sz mod 4) else sz)"
    using assms by (auto simp: round4_def m chk_eq_Some split: if_splits)
  show "4 dvd b" unfolding b by presburger
  show "sz \<le> b" unfolding b by presburger
  show "b < sz + 4" unfolding b by presburger
qed

lemma round4_rounded4:
  assumes "0 < sz" "sz + 3 \<le> INT_MAX"
  shows "round4 sz = Some (rounded4 sz)"
proof -
  have m: "c_mod sz 4 = sz mod 4" using assms by (simp add: c_mod_nonneg)
  have "sz mod 4 = 0 \<or> sz mod 4 = 1 \<or> sz mod 4 = 2 \<or> sz mod 4 = 3" by presburger
  then have e: "(if sz mod 4 > 0 then sz + (4 - sz mod 4) else sz) = rounded4 sz"
    unfolding rounded4_def by presburger
  have "sz + (4 - sz mod 4) \<le> sz + 3" if "sz mod 4 > 0"
    using that by presburger
  then have "0 < sz mod 4 \<Longrightarrow> chk (sz + (4 - sz mod 4)) = Some (sz + (4 - sz mod 4))"
    using assms by (simp add: chk_eq_Some INT_MIN_def)
  then show ?thesis
    using e by (auto simp: round4_def m)
qed

lemma rounded4_least: "4 dvd rounded4 sz" "sz \<le> rounded4 sz" "rounded4 sz < sz + 4"
  unfolding rounded4_def by presburger+

lemma carve_split:
  assumes "hdr pf + 4 \<le> size_status (h ptr) - swh"
    and "newBlock = ptr + c_div swh (hdr pf) * hdr pf" and "newBlock \<noteq> ptr"
  shows "carve pf sb4 swh h ptr =
     (ptr + hdr pf, h(newBlock := \<lparr>next = next (h ptr), size_status = size_status (h ptr) - swh\<rparr>,
                      ptr := \<lparr>next = newBlock, size_status = sb4 + 1\<rparr>))"
  using assms by (auto simp: carve_def Let_def set_next_apply set_size_apply fun_eq_iff)

lemma carve_whole:
  assumes "\<not> hdr pf + 4 \<le> size_status (h ptr) - swh"
  shows "carve pf sb4 swh h ptr =
     (ptr + hdr pf, h(ptr := \<lparr>next = next (h ptr), size_status = size_status (h ptr) + 1\<rparr>))"
  using assms by (auto simp: carve_def set_size_apply fun_eq_iff)

lemma coalesce_next_Some:
  assumes "t = size_status (h (next (h a))) + hdr pf" "INT_MIN \<le> t" "t \<le> INT_MAX"
    and "v = size_status (h a) + t" "INT_MIN \<le> v" "v \<le> INT_MAX"
  shows "coalesce_next pf h a = Some (h(a := \<lparr>next = next (h (next (h a))), size_status = v\<rparr>))"
  using assms by (simp add: coalesce_next_def set_size_apply set_next_apply fun_eq_iff)

lemma coalesce_prev_Some:
  assumes "next (h a) \<noteq> NULL"
    and "t = size_status (h a) + size_status (h (next (h a)))" "INT_MIN \<le> t" "t \<le> INT_MAX"
    and "v = t + hdr pf" "INT_MIN \<le> v" "v \<le> INT_MAX"
  shows "coalesce_prev pf h a = Some (h(a := \<lparr>next = next (h (next (h a))), size_status = v\<rparr>))"
  using assms by (simp add: coalesce_prev_def set_size_apply set_next_apply fun_eq_iff)

lemma Mem_Init_ok:
  assumes "Mem_Init pf fd sp n s0 = Some (0, s1)"
  shows "s1 = \<lparr>list_head = sp, allocated_once = 1,
               heap = (zero_fill (heap s0) sp (region_size pf n))
                 (sp := \<lparr>next = NULL, size_status = region_size pf n - hdr pf\<rparr>)\<rparr>"
    and "0 < n" and "pagesize pf \<noteq> 0" and "region_size pf n \<le> INT_MAX"
    and "allocated_once s0 = 0" and "fd \<noteq> - 1" and "sp \<noteq> MAP_FAILED"
  using assms
  by (auto simp: Mem_Init_def Let_def region_size_def chk_eq_Some set_next_apply set_size_apply
      fun_eq_iff split: if_splits Option.bind_splits)

subsection \<open>What the calls leave alone\<close>

lemma Mem_Alloc_globals:
  "Mem_Alloc pf n s = Some (p, s') \<Longrightarrow> list_head s' = list_head s \<and> allocated_once s' = allocated_once s"
  by (auto simp: Mem_Alloc_def split: if_splits Option.bind_splits)

lemma Mem_Free_globals:
  "Mem_Free pf p s = Some (r, s') \<Longrightarrow> list_head s' = list_head s \<and> allocated_once s' = allocated_once s"
  by (auto simp: Mem_Free_def Let_def split: if_splits Option.bind_splits)

lemma Mem_Init_again: "allocated_once s \<noteq> 0 \<Longrightarrow> Mem_Init pf fd sp n s = Some (- 1, s)"
  by (simp add: Mem_Init_def)

lemma Mem_Init_success:
  "Mem_Init pf fd sp n s = Some (0, s') \<Longrightarrow> allocated_once s' = 1 \<and> list_head s' = sp"
  by (auto simp: Mem_Init_def Let_def split: if_splits Option.bind_splits)

lemma reachable_allocated_once: "reachable pf s \<Longrightarrow> allocated_once s = 1"
proof (induction rule: reachable.induct)
  case (first s0 space_ptr fd n s)
  then show ?case by (simp add: Mem_Init_success)
next
  case (init s fd space_ptr n r s')
  then show ?case by (simp add: Mem_Init_again)
next
  case (alloc s n p s')
  then show ?case by (simp add: Mem_Alloc_globals)
next
  case (free s p r s')
  then show ?case by (simp add: Mem_Free_globals)
qed

lemma region_size_bounds:
  assumes "0 < n" "0 < pagesize pf"
  shows "n \<le> region_size pf n" "region_size pf n < n + pagesize pf" "pagesize pf dvd region_size pf n"
proof -
  let ?P = "pagesize pf"
  have m: "c_mod n ?P = n mod ?P" using assms by (simp add: c_mod_nonneg)
  have "0 \<le> ?P - n mod ?P" using assms by (simp add: less_imp_le)
  then have r: "region_size pf n = n + (?P - n mod ?P) mod ?P"
    using assms by (simp add: region_size_def m c_mod_nonneg)
  show "n \<le> region_size pf n" using assms by (simp add: r)
  show "region_size pf n < n + ?P" using assms by (simp add: r)
  have "n + (?P - n mod ?P) = ?P * (n div ?P + 1)"
    using mult_div_mod_eq [of ?P n] by (simp add: algebra_simps)
  then have "(n + (?P - n mod ?P)) mod ?P = 0"
    by simp
  then have "(n + (?P - n mod ?P) mod ?P) mod ?P = 0"
    by (simp add: mod_add_right_eq)
  then show "?P dvd region_size pf n" by (simp add: r mod_eq_0_iff_dvd)
qed


section \<open>C2: when Mem_Init fails\<close>

text \<open>
  C2, as the code has it. \<^verbatim>\<open>allocated_once\<close> is set only where \<^verbatim>\<open>Mem_Init\<close> returns 0, and
  line 87 clears it when \<^verbatim>\<open>mmap\<close> fails, so it is a call after a \<^emph>\<open>successful\<close> call that
  fails whatever its argument: in every state reached after \<^verbatim>\<open>Mem_Init\<close> has returned 0,
  \<^verbatim>\<open>Mem_Init\<close> returns -1 and changes nothing. \<^verbatim>\<open>Mem_Init\<close> also returns -1, and changes
  nothing, when the size is not strictly positive; and it returns -1, leaving the list
  head and the memory as they were, when \<^verbatim>\<open>open\<close> or \<^verbatim>\<open>mmap\<close> fails (for a size whose
  rounding stays in the range of \<^verbatim>\<open>int\<close>).
\<close>

theorem init_failures:
  "(reachable pf s \<longrightarrow> Mem_Init pf fd space_ptr n s = Some (- 1, s)) \<and>
   (n \<le> 0 \<longrightarrow> Mem_Init pf fd space_ptr n s = Some (- 1, s)) \<and>
   ((fd = - 1 \<or> space_ptr = MAP_FAILED) \<and> 0 < pagesize pf \<and> n + pagesize pf \<le> INT_MAX \<longrightarrow>
      (\<exists>s'. Mem_Init pf fd space_ptr n s = Some (- 1, s') \<and>
            list_head s' = list_head s \<and> heap s' = heap s))"
proof (intro conjI impI)
  assume "reachable pf s"
  then show "Mem_Init pf fd space_ptr n s = Some (- 1, s)"
    by (simp add: reachable_allocated_once Mem_Init_again)
next
  assume "n \<le> 0"
  then show "Mem_Init pf fd space_ptr n s = Some (- 1, s)"
    by (simp add: Mem_Init_def)
next
  assume a: "(fd = - 1 \<or> space_ptr = MAP_FAILED) \<and> 0 < pagesize pf \<and> n + pagesize pf \<le> INT_MAX"
  show "\<exists>s'. Mem_Init pf fd space_ptr n s = Some (- 1, s') \<and>
            list_head s' = list_head s \<and> heap s' = heap s"
  proof (cases "allocated_once s \<noteq> 0 \<or> n \<le> 0")
    case True
    then show ?thesis by (auto simp: Mem_Init_def)
  next
    case False
    then have n: "0 < n" by simp
    have "region_size pf n < n + pagesize pf" "n \<le> region_size pf n"
      using region_size_bounds n a by simp_all
    then have "chk (region_size pf n) = Some (region_size pf n)"
      using a n by (simp add: chk_def INT_MIN_def)
    then show ?thesis
      using False a by (auto simp: Mem_Init_def Let_def region_size_def)
  qed
qed


lemma Mem_Init_start: "Mem_Init pf32 3 4096 1024 start = Some (0, booted)"
  by (simp add: Mem_Init_def start_def pf32_def booted_def c_mod_def chk_def INT_MIN_def
      INT_MAX_def MAP_FAILED_def)

lemma reachable_booted: "reachable pf32 booted"
  by (rule reachable.first [OF _ _ Mem_Init_start]) (simp_all add: fresh_def start_def)

theorem init_failures_witness:
  "reachable pf32 booted \<and> Mem_Init pf32 3 8192 0 booted = Some (- 1, booted) \<and>
   (\<exists>s'. Mem_Init pf32 (- 1) 4096 1024 start = Some (- 1, s') \<and>
         list_head s' = list_head start \<and> heap s' = heap start)"
  using init_failures [of pf32 booted 3 8192 0] init_failures [of pf32 start "- 1" 4096 1024]
    reachable_booted
  by (simp add: pf32_def INT_MAX_def)

text \<open>
  C2 as stated fails: a call of \<^verbatim>\<open>Mem_Init\<close> that came after another call of \<^verbatim>\<open>Mem_Init\<close>
  returns 0. The first call, with size 0, returns -1; the second, with size 1024,
  returns 0 and sets \<^verbatim>\<open>allocated_once\<close>.
\<close>

theorem init_after_failed_init:
  "run pf32 [Init 3 4096 0, Init 3 4096 1024] start = Some ([- 1, 0], booted)"
proof -
  have "Mem_Init pf32 3 4096 0 start = Some (- 1, start)"
    by (simp add: Mem_Init_def)
  then show ?thesis
    by (simp add: Mem_Init_start)
qed

section \<open>C10: a failing Mem_Free changes nothing\<close>

text \<open>
  C10. Whenever \<^verbatim>\<open>Mem_Free\<close> returns -1 the state is the one before the call: the list
  head, and \<open>next\<close> and \<open>size_status\<close> of every block. It returns -1 for a \<open>NULL\<close> address,
  and for an address whose header, one header-width below it, has the allocation flag
  clear.
\<close>

theorem Mem_Free_failure_atomic:
  "(Mem_Free pf ptr s = Some (- 1, s') \<longrightarrow> s' = s) \<and>
   (ptr = NULL \<longrightarrow> Mem_Free pf ptr s = Some (- 1, s)) \<and>
   (ptr \<noteq> NULL \<and> ptr - hdr pf \<noteq> NULL \<and> \<not> busy (size_status (heap s (ptr - hdr pf)))
      \<longrightarrow> Mem_Free pf ptr s = Some (- 1, s))"
  by (auto simp: Mem_Free_def Let_def c_mod_2_eq_1 busy_iff_odd split: if_splits Option.bind_splits)


theorem Mem_Free_failure_atomic_witness:
  "Mem_Free pf32 4104 booted = Some (- 1, booted) \<and> Mem_Free pf32 NULL booted = Some (- 1, booted) \<and>
   (4104 :: int) \<noteq> NULL \<and> 4104 - hdr pf32 \<noteq> NULL \<and>
   \<not> busy (size_status (heap booted (4104 - hdr pf32)))"
proof -
  have b: "\<not> busy (size_status (heap booted (4104 - hdr pf32)))"
    by (simp add: busy_def booted_def pf32_def set_size_def set_next_def)
  have n: "(4104 :: int) \<noteq> NULL \<and> 4104 - hdr pf32 \<noteq> NULL"
    by (simp add: NULL_def pf32_def)
  show ?thesis
    using Mem_Free_failure_atomic [of pf32 4104 booted booted]
      Mem_Free_failure_atomic [of pf32 NULL booted booted] b n
    by simp
qed


section \<open>C1: where a split puts the new block\<close>

text \<open>
  C1 asks for the new block at the chosen block's address + header size + rounded
  request. Line 147 (and 175) computes \<^verbatim>\<open>ptr + sizeWithHead / sizeof(block_header)\<close> on a
  \<^verbatim>\<open>block_header*\<close>: the quotient is truncated and counts headers, so the new block lies
  \<open>sizeWithHead mod hdr\<close> bytes too low whenever the rounded request is not a multiple of
  the header size. With 8-byte headers, \<^verbatim>\<open>Mem_Init(1024)\<close> at 4096 and \<^verbatim>\<open>Mem_Alloc(100)\<close>:
  the call returns 4104, its payload ends at 4204, and the new block is at 4200; it does
  get the old \<open>next\<close> (\<open>NULL\<close>) and the size 4088 - 108 = 3980.
\<close>

theorem split_address_example:
  "do { (rs, s) \<leftarrow> run pf32 [Init 3 4096 1024, Alloc 100] start;
        Some (rs, blocks 3 s, 4096 + hdr pf32 + 100) }
   = Some ([0, 4104], [(4096, 101, 4200), (4200, 3980, NULL)], 4204)"
  by code_simp

text \<open>
  The same calls with 16-byte headers: the payload returned at 4112 ends at 4212, and the
  new block is at 4096 + (116 / 16) * 16 = 4208.
\<close>

lemma split_address_example64:
  "do { (rs, s) \<leftarrow> run pf64 [Init 3 4096 1024, Alloc 100] start;
        Some (rs, blocks 3 s, 4096 + hdr pf64 + 100) }
   = Some ([0, 4112], [(4096, 101, 4208), (4208, 3964, NULL)], 4212)"
  by code_simp

section \<open>C3: the coverage sum\<close>

text \<open>
  A split that lands too low can land on the header of the block that follows. Six
  4-byte blocks are allocated and the first five freed: the list is then a free block
  at 4096 of size 52 whose \<open>next\<close> is the busy block at 4136, then the free rest.
  \<^verbatim>\<open>Mem_Alloc(32)\<close> splits the block at 4096 and puts the new block at
  4096 + (40 / 8) * 8 = 4136, on the busy block, whose \<open>next\<close> becomes 4136 itself.
\<close>

lemma collision_trace:
  "do { (rs, s) \<leftarrow> run pf32 [Init 3 4096 1024, Alloc 4, Alloc 4, Alloc 4, Alloc 4, Alloc 4,
                                 Alloc 4, Free 4136, Free 4128, Free 4120, Free 4112, Free 4104]
                      start;
        (p, s') \<leftarrow> Mem_Alloc pf32 32 s;
        Some (rs, blocks 4 s, p, blocks 4 s') }
   = Some ([0, 4104, 4112, 4120, 4128, 4136, 4144, 0, 0, 0, 0, 0],
           [(4096, 52, 4136), (4136, 5, 4144), (4144, 4016, NULL)],
           4104,
           [(4096, 33, 4136), (4136, 12, 4136), (4136, 12, 4136), (4136, 12, 4136)])"
  by code_simp

lemma seg_self_loop: "next (h a) = a \<Longrightarrow> a \<noteq> b \<Longrightarrow> \<not> seg h a as b"
  by (induction as) auto

lemma chain_into_loop:
  "a \<noteq> NULL \<Longrightarrow> next (h a) = c \<Longrightarrow> next (h c) = c \<Longrightarrow> c \<noteq> NULL \<Longrightarrow> \<not> chain h a as"
  by (cases as) (auto simp: chain_def seg_self_loop)

text \<open>
  C3, at that input. Before the last call the blocks of the list add up to the region
  size, 4096; after it the walk from the head never reaches \<open>NULL\<close>, so the list has no
  sum at all (and the two blocks it holds add up to 60).
\<close>

theorem coverage_lost:
  "\<exists>rs s p s'.
     run pf32 [Init 3 4096 1024, Alloc 4, Alloc 4, Alloc 4, Alloc 4, Alloc 4, Alloc 4,
               Free 4136, Free 4128, Free 4120, Free 4112, Free 4104] start = Some (rs, s) \<and>
     coverage pf32 s 4096 \<and>
     Mem_Alloc pf32 32 s = Some (p, s') \<and> p \<noteq> NULL \<and>
     (\<forall>R. \<not> coverage pf32 s' R)"
proof -
  from collision_trace obtain rs s p s' where
    run: "run pf32 [Init 3 4096 1024, Alloc 4, Alloc 4, Alloc 4, Alloc 4, Alloc 4, Alloc 4,
               Free 4136, Free 4128, Free 4120, Free 4112, Free 4104] start = Some (rs, s)"
    and alloc: "Mem_Alloc pf32 32 s = Some (p, s')"
    and b: "blocks 4 s = [(4096, 52, 4136), (4136, 5, 4144), (4144, 4016, NULL)]"
    and p: "p = 4104"
    and b': "blocks 4 s' = [(4096, 33, 4136), (4136, 12, 4136), (4136, 12, 4136), (4136, 12, 4136)]"
    by (auto simp: Option.bind_eq_Some_conv)
  from b have s: "list_head s = 4096"
    "next (heap s 4096) = 4136" "size_status (heap s 4096) = 52"
    "next (heap s 4136) = 4144" "size_status (heap s 4136) = 5"
    "next (heap s 4144) = NULL" "size_status (heap s 4144) = 4016"
    by (auto simp: blocks_def eval_nat_numeral split: if_splits)
  have "chain (heap s) (list_head s) [4096, 4136, 4144]"
    by (simp add: chain_def s) (simp add: NULL_def)
  moreover have "total pf32 (heap s) [4096, 4136, 4144] = 4096"
    by (simp add: total_def s payload_def busy_def pf32_def)
  ultimately have "coverage pf32 s 4096"
    unfolding coverage_def by blast
  moreover
  from b' have s': "list_head s' = 4096" "next (heap s' 4096) = 4136" "next (heap s' 4136) = 4136"
    by (auto simp: blocks_def eval_nat_numeral split: if_splits)
  have "\<not> chain (heap s') (list_head s') as" for as
    by (rule chain_into_loop [of _ _ 4136]) (simp_all add: s' NULL_def)
  then have "\<forall>R. \<not> coverage pf32 s' R"
    by (simp add: coverage_def)
  ultimately show ?thesis
    using run alloc p by (auto simp: NULL_def)
qed

text \<open>
  With 16-byte headers three freed 12-byte blocks are enough: \<^verbatim>\<open>Mem_Alloc(32)\<close> puts the
  new block at 4096 + (48 / 16) * 16 = 4144, on the busy block there.
\<close>

lemma collision_trace64:
  "do { (rs, s) \<leftarrow> run pf64 [Init 3 4096 1024, Alloc 12, Alloc 12, Alloc 12, Alloc 12,
                                 Free 4144, Free 4128, Free 4112] start;
        (p, s') \<leftarrow> Mem_Alloc pf64 32 s;
        Some (rs, blocks 4 s, p, blocks 4 s') }
   = Some ([0, 4112, 4128, 4144, 4160, 0, 0, 0],
           [(4096, 68, 4144), (4144, 13, 4160), (4160, 3968, NULL)],
           4112,
           [(4096, 33, 4144), (4144, 20, 4144), (4144, 20, 4144), (4144, 20, 4144)])"
  by code_simp

section \<open>C7: allocate, then free, gives back the single block\<close>

text \<open>
  C7. After a successful \<^verbatim>\<open>Mem_Init\<close> and a successful \<^verbatim>\<open>Mem_Alloc\<close> that split the initial
  block, \<^verbatim>\<open>Mem_Free\<close> on the returned address returns 0, and the list is again the one
  free block at the base of the region, \<open>next = NULL\<close>, of size the rounded region size
  minus the header size.
\<close>

theorem alloc_free_round_trip:
  assumes pf: "platform_ok pf" and sp: "0 < space_ptr"
    and init: "Mem_Init pf fd space_ptr n s0 = Some (0, s1)"
    and alloc: "Mem_Alloc pf sz s1 = Some (p, s2)" and p: "p \<noteq> NULL"
    and split: "next (heap s2 space_ptr) \<noteq> NULL"
  shows "\<exists>s3. Mem_Free pf p s2 = Some (0, s3) \<and> list_head s3 = space_ptr \<and>
            heap s3 space_ptr = \<lparr>next = NULL, size_status = region_size pf n - hdr pf\<rparr> \<and>
            chain (heap s3) (list_head s3) [space_ptr]"
proof -
  let ?H = "hdr pf"
  let ?S = "region_size pf n - ?H"
  from pf have H: "0 < ?H" "4 dvd ?H" "?H \<le> pagesize pf"
    by (simp_all add: platform_ok_def)
  note i = Mem_Init_ok [OF init]
  have R: "n \<le> region_size pf n" "pagesize pf dvd region_size pf n"
    using region_size_bounds [of n pf] i(2) H by simp_all
  have h1: "heap s1 space_ptr = \<lparr>next = NULL, size_status = ?S\<rparr>" "list_head s1 = space_ptr"
    by (simp_all add: i(1))
  have spn: "space_ptr \<noteq> NULL" using sp by (simp add: NULL_def)
  from alloc p have sz: "0 < sz"
    by (auto simp: Mem_Alloc_def split: if_splits)
  from alloc sz obtain sb4 swh r h where
    sb4: "round4 sz = Some sb4" and swh: "chk (sb4 + ?H) = Some swh"
    and loop: "alloc_loop pf sb4 swh (heap s1) space_ptr = Some (r, h)"
    and s2: "s2 = s1\<lparr>heap := h\<rparr>" "p = r"
    by (auto simp: Mem_Alloc_def h1 split: Option.bind_splits)
  note b = round4_Some [OF sz sb4]
  have swh_eq: "swh = sb4 + ?H" using swh by (simp add: chk_eq_Some)
  have fit: "c_mod ?S 2 = 0" "swh \<le> ?S" and carve: "carve pf sb4 swh (heap s1) space_ptr = (r, h)"
    using loop p s2 spn by (subst (asm) alloc_loop.simps; simp add: h1 split: if_splits)+
  have big: "?H + 4 \<le> ?S - swh"
  proof (rule ccontr)
    assume "\<not> ?thesis"
    then have "h = (heap s1)(space_ptr := \<lparr>next = NULL, size_status = ?S + 1\<rparr>)"
      using carve by (simp add: carve_whole h1)
    with split s2 show False by simp
  qed
  define nb where "nb = space_ptr + c_div swh ?H * ?H"
  have nb: "space_ptr < nb" using c_div_pos [of ?H swh] H b sz by (simp add: nb_def swh_eq)
  have h: "h = (heap s1)(nb := \<lparr>next = NULL, size_status = ?S - swh\<rparr>,
                space_ptr := \<lparr>next = nb, size_status = sb4 + 1\<rparr>)"
    and r: "r = space_ptr + ?H"
  proof -
    have big': "hdr pf + 4 \<le> size_status (heap s1 space_ptr) - swh"
      using big by (simp add: h1)
    have "nb \<noteq> space_ptr" using nb by simp
    from carve_split [of pf "heap s1" space_ptr swh nb sb4, OF big' nb_def this] carve
    show "h = (heap s1)(nb := \<lparr>next = NULL, size_status = ?S - swh\<rparr>,
                space_ptr := \<lparr>next = nb, size_status = sb4 + 1\<rparr>)"
      and "r = space_ptr + ?H"
      by (simp_all add: h1)
  qed
  have nbn: "nb \<noteq> NULL" using nb sp by (simp add: NULL_def)
  have odd1: "c_mod (sb4 + 1) 2 = 1" using b sz by (simp add: c_mod_2_eq_1) presburger
  have ev: "c_mod (?S - swh) 2 = 0"
    using fit b H by (simp add: c_mod_2_eq_0 swh_eq) presburger
  have Sb: "?S \<le> INT_MAX" using i(4) H by simp
  define h' where "h' = h(space_ptr := \<lparr>next = nb, size_status = sb4\<rparr>)"
  have h'1: "set_size h space_ptr (size_status (h space_ptr) + - 1) = h'"
    by (simp add: h h'_def set_size_apply fun_eq_iff)
  have h'2: "h' space_ptr = \<lparr>next = nb, size_status = sb4\<rparr>"
    "h' nb = \<lparr>next = NULL, size_status = ?S - swh\<rparr>"
    using nb by (simp_all add: h'_def h)
  have co: "coalesce_next pf h' space_ptr
      = Some (h'(space_ptr := \<lparr>next = NULL, size_status = ?S\<rparr>))"
  proof -
    have "coalesce_next pf h' space_ptr = Some (h'(space_ptr :=
        \<lparr>next = next (h' (next (h' space_ptr))), size_status = sb4 + (?S - swh + ?H)\<rparr>))"
    proof (rule coalesce_next_Some [OF refl _ _ _ _ _])
      show "INT_MIN \<le> size_status (h' (next (h' space_ptr))) + ?H"
        using big H by (simp add: h'2 INT_MIN_def)
      show "size_status (h' (next (h' space_ptr))) + ?H \<le> INT_MAX"
        using Sb b sz H by (simp add: h'2 swh_eq)
      show "sb4 + (?S - swh + ?H) = size_status (h' space_ptr)
          + (size_status (h' (next (h' space_ptr))) + ?H)"
        by (simp add: h'2)
      show "INT_MIN \<le> sb4 + (?S - swh + ?H)"
        using fit b sz H by (simp add: swh_eq INT_MIN_def)
      show "sb4 + (?S - swh + ?H) \<le> INT_MAX"
        using Sb by (simp add: swh_eq)
    qed
    then show ?thesis by (simp add: h'2 swh_eq)
  qed
  have fr: "h space_ptr = \<lparr>next = nb, size_status = sb4 + 1\<rparr>" "p - ?H = space_ptr"
    by (simp_all add: s2 r h)
  have "Mem_Free pf p s2 = Some (0, s2\<lparr>heap := h'(space_ptr := \<lparr>next = NULL, size_status = ?S\<rparr>)\<rparr>)"
  proof -
    have "p \<noteq> NULL" by (rule p)
    moreover have "list_head s2 = space_ptr" by (simp add: s2 h1)
    moreover have "heap s2 = h" by (simp add: s2)
    ultimately show ?thesis
      using spn nbn odd1 ev co h'1
      by (simp add: Mem_Free_def Let_def forward_def fr h'2)
  qed
  then show ?thesis
    using spn by (simp add: s2 h1 chain_def h'_def)
qed


lemma alloc_100: 
  "case Mem_Alloc pf32 100 booted of
     Some (p, s) \<Rightarrow> p = 4104 \<and> next (heap s 4096) = 4200
   | None \<Rightarrow> False"
  by code_simp

theorem alloc_free_round_trip_witness:
  "\<exists>s2. platform_ok pf32 \<and> Mem_Init pf32 3 4096 1024 start = Some (0, booted) \<and>
     Mem_Alloc pf32 100 booted = Some (4104, s2) \<and> next (heap s2 4096) \<noteq> NULL \<and>
     (\<exists>s3. Mem_Free pf32 4104 s2 = Some (0, s3) \<and> list_head s3 = 4096 \<and>
        heap s3 4096 = \<lparr>next = NULL, size_status = 4088\<rparr> \<and>
        chain (heap s3) (list_head s3) [4096])"
proof -
  from alloc_100 obtain s2 where
    a: "Mem_Alloc pf32 100 booted = Some (4104, s2)" and n: "next (heap s2 4096) \<noteq> NULL"
    by (auto simp: NULL_def split: option.splits)
  have pf: "platform_ok pf32"
    by (simp add: platform_ok_def pf32_def)
  have r: "region_size pf32 1024 - hdr pf32 = 4088"
    by (simp add: region_size_def pf32_def c_mod_def)
  from alloc_free_round_trip [OF pf _ Mem_Init_start a _ n]
  have "\<exists>s3. Mem_Free pf32 4104 s2 = Some (0, s3) \<and> list_head s3 = 4096 \<and>
        heap s3 4096 = \<lparr>next = NULL, size_status = 4088\<rparr> \<and>
        chain (heap s3) (list_head s3) [4096]"
    by (simp add: NULL_def r)
  with pf a n show ?thesis
    by (auto simp: Mem_Init_start)
qed


section \<open>The search of Mem_Alloc on a list\<close>

lemma seg_append: "seg h a (xs @ ys) b \<longleftrightarrow> (\<exists>c. seg h a xs c \<and> seg h c ys b)"
  by (induction xs arbitrary: a) auto

lemma seg_cong: "(\<And>x. x \<in> set as \<Longrightarrow> next (h' x) = next (h x)) \<Longrightarrow> seg h' a as b = seg h a as b"
  by (induction as arbitrary: a) auto

lemma seg_upd: "u \<notin> set as \<Longrightarrow> seg (h(u := v)) a as b = seg h a as b"
  by (rule seg_cong) auto

lemma seg_unique: "seg h a as NULL \<Longrightarrow> seg h a bs NULL \<Longrightarrow> as = bs"
proof (induction as arbitrary: a bs)
  case Nil
  then show ?case by (cases bs) auto
next
  case (Cons x xs)
  then show ?case by (cases bs) auto
qed

lemma chain_hd_notin_tl: "chain h (next (h a)) as \<Longrightarrow> a \<notin> set as"
proof
  assume c: "chain h (next (h a)) as" and "a \<in> set as"
  then obtain xs ys where as: "as = xs @ a # ys"
    by (auto simp: in_set_conv_decomp)
  with c have "seg h a (a # ys) NULL"
    by (auto simp: chain_def seg_append)
  then have "seg h (next (h a)) ys NULL" by simp
  with c have "as = ys" by (auto simp: chain_def dest: seg_unique)
  with as show False by simp
qed

lemma chain_distinct: "chain h a as \<Longrightarrow> distinct as"
proof (induction as arbitrary: a)
  case (Cons x xs)
  then have "a = x" "chain h (next (h x)) xs" by (auto simp: chain_def)
  with Cons.IH show ?case by (simp add: chain_hd_notin_tl)
qed simp

lemma alloc_loop_chain:
  assumes "chain h a as" "as \<noteq> []"
  shows "alloc_loop pf sb4 swh h a =
     Some (case List.find (\<lambda>x. fits swh (size_status (h x))) as of
             None \<Rightarrow> (NULL, h) | Some x \<Rightarrow> carve pf sb4 swh h x)"
  using assms
proof (induction as arbitrary: a)
  case Nil
  then show ?case by simp
next
  case (Cons x xs)
  then have x: "a = x" "x \<noteq> NULL" and rest: "chain h (next (h x)) xs"
    by (auto simp: chain_def)
  show ?case
  proof (cases xs)
    case Nil
    with rest have "next (h x) = NULL" by (simp add: chain_def)
    then show ?thesis
      using x Nil by (subst alloc_loop.simps) (simp add: fits_def)
  next
    case (Cons y ys)
    with rest have n: "next (h x) \<noteq> NULL" by (auto simp: chain_def)
    have "alloc_loop pf sb4 swh h (next (h x)) =
      Some (case List.find (\<lambda>x. fits swh (size_status (h x))) xs of
             None \<Rightarrow> (NULL, h) | Some x \<Rightarrow> carve pf sb4 swh h x)"
      using Cons.IH [OF rest] Cons by simp
    then show ?thesis
      using x n by (subst alloc_loop.simps) (simp add: fits_def)
  qed
qed

lemma fst_carve: "fst (carve pf sb4 swh h ptr) = ptr + hdr pf"
  by (simp add: carve_def Let_def)

lemma find_first:
  "List.find P xs = Some x \<Longrightarrow> \<exists>pre post. xs = pre @ x # post \<and> P x \<and> (\<forall>y\<in>set pre. \<not> P y)"
proof (induction xs)
  case (Cons a xs)
  show ?case
  proof (cases "P a")
    case True
    with Cons.prems have "a = x" by simp
    with True show ?thesis by (intro exI [of _ "[]"] exI [of _ xs]) simp
  next
    case False
    with Cons obtain pre post where "xs = pre @ x # post" "P x" "\<forall>y\<in>set pre. \<not> P y"
      by auto
    with False show ?thesis
      by (intro exI [of _ "a # pre"] exI [of _ post]) auto
  qed
qed simp


lemma fits_iff: "fits swh v \<longleftrightarrow> \<not> busy v \<and> swh \<le> v"
  by (simp add: fits_def c_mod_2_eq_0 busy_iff_odd)

lemma round4_is_rounded4:
  assumes "0 < sz" "round4 sz = Some b"
  shows "b = rounded4 sz"
proof -
  from round4_Some [OF assms] rounded4_least [of sz]
  show ?thesis by presburger
qed

lemma Mem_Alloc_Some:
  assumes "Mem_Alloc pf sz s = Some (p, s')" "0 < sz"
  shows "alloc_loop pf (rounded4 sz) (rounded4 sz + hdr pf) (heap s) (list_head s)
           = Some (p, heap s') \<and> s' = s\<lparr>heap := heap s'\<rparr>"
proof -
  from assms obtain sb4 swh r h where
    sb4: "round4 sz = Some sb4" and swh: "chk (sb4 + hdr pf) = Some swh"
    and loop: "alloc_loop pf sb4 swh (heap s) (list_head s) = Some (r, h)"
    and s2: "s' = s\<lparr>heap := h\<rparr>" "p = r"
    by (auto simp: Mem_Alloc_def split: Option.bind_splits)
  have "sb4 = rounded4 sz" using round4_is_rounded4 [OF assms(2) sb4] .
  moreover have "swh = sb4 + hdr pf" using swh by (simp add: chk_eq_Some)
  ultimately show ?thesis using loop s2 by simp
qed

lemma Mem_Alloc_chain:
  assumes "chain (heap s) (list_head s) as" "as \<noteq> []"
    and "0 < sz" "sz + 3 + hdr pf \<le> INT_MAX" "0 \<le> hdr pf"
  shows "Mem_Alloc pf sz s =
     Some (case List.find (\<lambda>x. fits (rounded4 sz + hdr pf) (size_status (heap s x))) as of
             None \<Rightarrow> (NULL, s)
           | Some x \<Rightarrow> (x + hdr pf,
               s\<lparr>heap := snd (carve pf (rounded4 sz) (rounded4 sz + hdr pf) (heap s) x)\<rparr>))"
proof -
  have r: "round4 sz = Some (rounded4 sz)"
    using assms by (simp add: round4_rounded4)
  have "rounded4 sz + hdr pf \<le> INT_MAX" "INT_MIN \<le> rounded4 sz + hdr pf"
    using rounded4_least [of sz] assms by (simp_all add: INT_MIN_def)
  then have c: "chk (rounded4 sz + hdr pf) = Some (rounded4 sz + hdr pf)"
    by simp
  show ?thesis
    using assms(3) fst_carve [of pf "rounded4 sz" "rounded4 sz + hdr pf" "heap s"]
    by (simp add: Mem_Alloc_def r c alloc_loop_chain [OF assms(1,2)] split_beta
        split: option.splits)
qed

lemma busy_after_carve:
  assumes "4 dvd sb4" "\<not> busy (size_status (h ptr))"
  shows "busy (size_status (snd (carve pf sb4 swh h ptr) ptr))"
  using assms by (auto simp: carve_def Let_def set_size_apply busy_iff_odd)


section \<open>C8: when Mem_Alloc finds no block\<close>

text \<open>
  On a list that ends, the search of \<^verbatim>\<open>Mem_Alloc\<close> ends too. \<^verbatim>\<open>Mem_Alloc\<close> returns \<open>NULL\<close>,
  and leaves the state as it was, when the size is not strictly positive. On a list (of
  at least one block) on which no block passes the size test, that is, every block is
  busy or smaller than the rounded request plus the header size, it returns \<open>NULL\<close> and
  leaves the state as it was. And whenever it returns \<open>NULL\<close> on a list, the state is the
  one before the call.
\<close>

lemma alloc_failure_on_list:
  "(sz \<le> 0 \<longrightarrow> Mem_Alloc pf sz s = Some (NULL, s)) \<and>
   (chain (heap s) (list_head s) as \<and> as \<noteq> [] \<and> 0 < sz \<and> sz + 3 + hdr pf \<le> INT_MAX \<and>
      0 \<le> hdr pf \<and>
      (\<forall>a\<in>set as. busy (size_status (heap s a)) \<or> size_status (heap s a) < rounded4 sz + hdr pf)
      \<longrightarrow> Mem_Alloc pf sz s = Some (NULL, s)) \<and>
   (chain (heap s) (list_head s) as \<and> (\<forall>a\<in>set as. a + hdr pf \<noteq> NULL) \<and>
      Mem_Alloc pf sz s = Some (NULL, s') \<longrightarrow> s' = s)"
proof (intro conjI impI)
  assume "sz \<le> 0"
  then show "Mem_Alloc pf sz s = Some (NULL, s)"
    by (simp add: Mem_Alloc_def)
next
  assume a: "chain (heap s) (list_head s) as \<and> as \<noteq> [] \<and> 0 < sz \<and> sz + 3 + hdr pf \<le> INT_MAX \<and>
      0 \<le> hdr pf \<and>
      (\<forall>a\<in>set as. busy (size_status (heap s a)) \<or> size_status (heap s a) < rounded4 sz + hdr pf)"
  then have "List.find (\<lambda>x. fits (rounded4 sz + hdr pf) (size_status (heap s x))) as = None"
    by (auto simp: find_None_iff fits_iff)
  with a Mem_Alloc_chain [of s as sz pf] show "Mem_Alloc pf sz s = Some (NULL, s)"
    by simp
next
  assume a: "chain (heap s) (list_head s) as \<and> (\<forall>a\<in>set as. a + hdr pf \<noteq> NULL) \<and>
      Mem_Alloc pf sz s = Some (NULL, s')"
  show "s' = s"
  proof (cases "sz \<le> 0")
    case True
    with a show ?thesis by (simp add: Mem_Alloc_def)
  next
    case False
    with a have l: "alloc_loop pf (rounded4 sz) (rounded4 sz + hdr pf) (heap s) (list_head s)
           = Some (NULL, heap s')" and s': "s' = s\<lparr>heap := heap s'\<rparr>"
      using Mem_Alloc_Some [of pf sz s NULL s'] by simp_all
    have "as \<noteq> []"
    proof
      assume "as = []"
      with a have "list_head s = NULL" by (simp add: chain_def)
      with l show False by (subst (asm) alloc_loop.simps) simp
    qed
    moreover from a have "chain (heap s) (list_head s) as" by simp
    ultimately have f: "(case List.find (\<lambda>x. fits (rounded4 sz + hdr pf) (size_status (heap s x))) as of
             None \<Rightarrow> (NULL, heap s)
           | Some x \<Rightarrow> carve pf (rounded4 sz) (rounded4 sz + hdr pf) (heap s) x) = (NULL, heap s')"
      using l by (simp add: alloc_loop_chain)
    show ?thesis
    proof (cases "List.find (\<lambda>x. fits (rounded4 sz + hdr pf) (size_status (heap s x))) as")
      case None
      with f have "heap s' = heap s" by simp
      with s' show ?thesis by simp
    next
      case (Some x)
      then have "x \<in> set as" by (auto simp: find_Some_iff)
      moreover from Some f have "fst (carve pf (rounded4 sz) (rounded4 sz + hdr pf) (heap s) x) = NULL"
        by simp
      ultimately show ?thesis using a by (simp add: fst_carve)
    qed
  qed
qed


lemma chain_booted: "chain (heap booted) (list_head booted) [4096]"
  by (simp add: chain_def booted_def set_size_apply set_next_apply NULL_def)

lemma alloc_failure_on_booted:
  "Mem_Alloc pf32 0 booted = Some (NULL, booted) \<and>
   chain (heap booted) (list_head booted) [4096] \<and>
   size_status (heap booted 4096) < rounded4 4096 + hdr pf32 \<and>
   4096 + hdr pf32 \<noteq> NULL \<and>
   Mem_Alloc pf32 4096 booted = Some (NULL, booted)"
proof -
  have small: "size_status (heap booted 4096) < rounded4 4096 + hdr pf32"
    by (simp add: booted_def set_size_apply rounded4_def pf32_def)
  have pos: "4096 + hdr pf32 \<noteq> NULL"
    by (simp add: pf32_def NULL_def)
  have fail: "Mem_Alloc pf32 4096 booted = Some (NULL, booted)"
    using alloc_failure_on_list [of 4096 pf32 booted "[4096]" booted] chain_booted small
    by (auto simp: pf32_def INT_MAX_def)
  show ?thesis
    using alloc_failure_on_list [of 0 pf32 booted "[4096]" booted]
      alloc_failure_on_list [of 4096 pf32 booted "[4096]" booted] chain_booted small pos fail
    by simp
qed


text \<open>
  The search stops only at a block that passes the size test or at a block whose \<open>next\<close>
  is \<open>NULL\<close> (the loop of line 134, and lines 168 to 190 after it). Where the blocks met
  from the head have neither, it has no result.
\<close>

lemma alloc_loop_stops:
  assumes "alloc_loop pf sb4 swh h a = Some y"
  shows "\<exists>x. listed h a x \<and> (fits swh (size_status (h x)) \<or> next (h x) = NULL)"
proof (rule alloc_loop.raw_induct [where P = "\<lambda>pf sb4 swh h a y.
         \<exists>x. listed h a x \<and> (fits swh (size_status (h x)) \<or> next (h x) = NULL)",
       OF _ assms], goal_cases)
  case (1 loop pf sb4 swh h a y)
  from 1(2) have a: "a \<noteq> NULL" by (auto split: if_splits)
  show ?case
  proof (cases "fits swh (size_status (h a)) \<or> next (h a) = NULL")
    case True
    with a show ?thesis by (auto intro: listed.here)
  next
    case False
    with 1(2) a have "loop pf sb4 swh h (next (h a)) = Some y"
      by (auto simp: fits_def split: if_splits)
    from 1(1) [OF this] a show ?thesis
      by (auto intro: listed.further)
  qed
qed

lemma listed_closed:
  "listed h a x \<Longrightarrow> a \<in> W \<Longrightarrow> (\<And>w. w \<in> W \<Longrightarrow> next (h w) \<in> W) \<Longrightarrow> x \<in> W"
  by (induction rule: listed.induct) auto

lemma alloc_loop_endless:
  assumes W: "a \<in> W" "\<And>w. w \<in> W \<Longrightarrow> next (h w) \<in> W"
    and no: "\<And>w. w \<in> W \<Longrightarrow> \<not> fits swh (size_status (h w)) \<and> next (h w) \<noteq> NULL"
  shows "alloc_loop pf sb4 swh h a = None"
proof (cases "alloc_loop pf sb4 swh h a")
  case (Some y)
  from alloc_loop_stops [OF Some] obtain x where
    x: "listed h a x" "fits swh (size_status (h x)) \<or> next (h x) = NULL"
    by blast
  from x(1) W have "x \<in> W" by (rule listed_closed)
  with no x(2) show ?thesis by blast
qed simp

text \<open>
  The calls of \<open>collision_trace\<close>, with the \<^verbatim>\<open>Mem_Alloc(32)\<close> that puts the new block on
  the header at 4136: the head block is busy, and the block at 4136 is free, has size
  12 and is its own \<open>next\<close>.
\<close>

lemma cyclic_trace:
  "do { (rs, s) \<leftarrow> run pf32 [Init 3 4096 1024, Alloc 4, Alloc 4, Alloc 4, Alloc 4, Alloc 4,
                                 Alloc 4, Free 4136, Free 4128, Free 4120, Free 4112, Free 4104,
                                 Alloc 32] start;
        Some (rs, blocks 3 s) }
   = Some ([0, 4104, 4112, 4120, 4128, 4136, 4144, 0, 0, 0, 0, 0, 4104],
           [(4096, 33, 4136), (4136, 12, 4136), (4136, 12, 4136)])"
  by code_simp

text \<open>
  C8, at that input. A request of 8 bytes needs a free block of size 16 or more, and the
  list has none: the block at 4096 is busy and the block at 4136 has size 12. C8 says
  that \<^verbatim>\<open>Mem_Alloc\<close> returns \<open>NULL\<close> here. The rounding and the sum with the header size
  are in range and the head is not \<open>NULL\<close>, but the search goes from 4136 to 4136 again
  and never stops: \<^verbatim>\<open>Mem_Alloc(8)\<close> has no result.
\<close>

theorem alloc_never_returns:
  "\<exists>rs s. run pf32 [Init 3 4096 1024, Alloc 4, Alloc 4, Alloc 4, Alloc 4, Alloc 4, Alloc 4,
                    Free 4136, Free 4128, Free 4120, Free 4112, Free 4104, Alloc 32] start
             = Some (rs, s) \<and>
     blocks 3 s = [(4096, 33, 4136), (4136, 12, 4136), (4136, 12, 4136)] \<and>
     round4 8 = Some 8 \<and> chk (8 + hdr pf32) = Some 16 \<and>
     alloc_loop pf32 8 16 (heap s) (list_head s) = None \<and>
     Mem_Alloc pf32 8 s = None"
proof -
  from cyclic_trace obtain rs s where
    run: "run pf32 [Init 3 4096 1024, Alloc 4, Alloc 4, Alloc 4, Alloc 4, Alloc 4, Alloc 4,
                    Free 4136, Free 4128, Free 4120, Free 4112, Free 4104, Alloc 32] start
             = Some (rs, s)"
    and b: "blocks 3 s = [(4096, 33, 4136), (4136, 12, 4136), (4136, 12, 4136)]"
    by (auto simp: Option.bind_eq_Some_conv)
  from b have s: "list_head s = 4096"
    "next (heap s 4096) = 4136" "size_status (heap s 4096) = 33"
    "next (heap s 4136) = 4136" "size_status (heap s 4136) = 12"
    by (auto simp: blocks_def eval_nat_numeral split: if_splits)
  have r: "round4 8 = Some 8" "chk (8 + hdr pf32) = Some 16"
    by (simp_all add: round4_def c_mod_def pf32_def INT_MIN_def INT_MAX_def)
  have l: "alloc_loop pf32 8 16 (heap s) (list_head s) = None"
  proof (rule alloc_loop_endless [of _ "{4096, 4136}"])
    show "list_head s \<in> {4096, 4136}" by (simp add: s)
    show "next (heap s w) \<in> {4096, 4136}" if "w \<in> {4096, 4136}" for w
      using that by (auto simp: s)
    show "\<not> fits 16 (size_status (heap s w)) \<and> next (heap s w) \<noteq> NULL"
      if "w \<in> {4096, 4136}" for w
      using that by (auto simp: s fits_def c_mod_def NULL_def)
  qed
  then have "Mem_Alloc pf32 8 s = None"
    using r by (simp add: Mem_Alloc_def)
  with run b r l show ?thesis by blast
qed


section \<open>C5: first fit\<close>

text \<open>
  C5. On a list whose blocks are in increasing address order, a \<^verbatim>\<open>Mem_Alloc\<close> of a strictly
  positive size that returns an address has chosen the lowest-addressed block that is
  free and whose size is at least the request rounded up to a multiple of 4 plus the
  header size: every block before it in the list has a lower address and is busy or
  smaller than that (a free block whose size is just the rounded request is smaller), and
  every block after it has a higher address. The address returned is the first byte
  past the header of that block, and the block is busy afterwards.
\<close>

theorem first_fit:
  assumes "chain (heap s) (list_head s) as" and "sorted_wrt (<) as"
    and "0 < sz" and "Mem_Alloc pf sz s = Some (p, s')" and "p \<noteq> NULL"
  shows "\<exists>pre b post. as = pre @ b # post \<and> p = b + hdr pf \<and>
           \<not> busy (size_status (heap s b)) \<and> rounded4 sz + hdr pf \<le> size_status (heap s b) \<and>
           (\<forall>c\<in>set pre. c < b \<and>
              (busy (size_status (heap s c)) \<or> size_status (heap s c) < rounded4 sz + hdr pf)) \<and>
           (\<forall>c\<in>set post. b < c) \<and>
           busy (size_status (heap s' b))"
proof -
  let ?swh = "rounded4 sz + hdr pf"
  let ?P = "\<lambda>x. fits ?swh (size_status (heap s x))"
  from Mem_Alloc_Some [OF assms(4,3)]
  have l: "alloc_loop pf (rounded4 sz) ?swh (heap s) (list_head s) = Some (p, heap s')"
    by simp
  have ne: "as \<noteq> []"
  proof
    assume "as = []"
    with assms(1) have "list_head s = NULL" by (simp add: chain_def)
    with l show False by (subst (asm) alloc_loop.simps) simp
  qed
  with assms(1) l have f: "(case List.find ?P as of None \<Rightarrow> (NULL, heap s)
           | Some x \<Rightarrow> carve pf (rounded4 sz) ?swh (heap s) x) = (p, heap s')"
    by (simp add: alloc_loop_chain)
  with assms(5) obtain b where b: "List.find ?P as = Some b"
    and c: "carve pf (rounded4 sz) ?swh (heap s) b = (p, heap s')"
    by (auto split: option.splits)
  from find_first [OF b] obtain pre post where
    as: "as = pre @ b # post" and Pb: "?P b" and pre: "\<forall>y\<in>set pre. \<not> ?P y"
    by blast
  have "p = b + hdr pf" using c fst_carve [of pf "rounded4 sz" ?swh "heap s" b] by simp
  moreover have "\<forall>c\<in>set pre. c < b" "\<forall>c\<in>set post. b < c"
    using assms(2) by (auto simp: as sorted_wrt_append)
  moreover have "busy (size_status (heap s' b))"
    using busy_after_carve [of "rounded4 sz" "heap s" b pf ?swh] Pb c rounded4_least(1) [of sz]
    by (simp add: fits_iff)
  ultimately show ?thesis
    using as Pb pre by (intro exI [of _ pre] exI [of _ b] exI [of _ post]) (auto simp: fits_iff)
qed


lemma skip_trace:
  "do { (rs, s) \<leftarrow> run pf32 [Init 3 4096 1024, Alloc 4, Alloc 4, Free 4104] start;
        (p, s') \<leftarrow> Mem_Alloc pf32 4 s;
        Some (rs, blocks 4 s, p, blocks 4 s') }
   = Some ([0, 4104, 4112, 0],
           [(4096, 4, 4104), (4104, 5, 4112), (4112, 4064, NULL)],
           4120,
           [(4096, 4, 4104), (4104, 5, 4112), (4112, 5, 4120), (4120, 4052, NULL)])"
  by code_simp

theorem first_fit_witness:
  "\<exists>rs s s'. run pf32 [Init 3 4096 1024, Alloc 4, Alloc 4, Free 4104] start = Some (rs, s) \<and>
     chain (heap s) (list_head s) [4096, 4104, 4112] \<and> sorted_wrt (<) [4096, 4104, 4112 :: int] \<and>
     Mem_Alloc pf32 4 s = Some (4120, s') \<and> (4120 :: int) \<noteq> NULL \<and>
     size_status (heap s 4096) = rounded4 4 \<and>
     (\<exists>pre b post. [4096, 4104, 4112] = pre @ b # post \<and> 4120 = b + hdr pf32 \<and>
           \<not> busy (size_status (heap s b)) \<and> rounded4 4 + hdr pf32 \<le> size_status (heap s b) \<and>
           (\<forall>c\<in>set pre. c < b \<and>
              (busy (size_status (heap s c)) \<or> size_status (heap s c) < rounded4 4 + hdr pf32)) \<and>
           (\<forall>c\<in>set post. b < c) \<and>
           busy (size_status (heap s' b)))"
proof -
  from skip_trace obtain rs s s' where
    run: "run pf32 [Init 3 4096 1024, Alloc 4, Alloc 4, Free 4104] start = Some (rs, s)"
    and alloc: "Mem_Alloc pf32 4 s = Some (4120, s')"
    and b: "blocks 4 s = [(4096, 4, 4104), (4104, 5, 4112), (4112, 4064, NULL)]"
    by (auto simp: Option.bind_eq_Some_conv)
  from b have s: "list_head s = 4096"
    "next (heap s 4096) = 4104" "size_status (heap s 4096) = 4"
    "next (heap s 4104) = 4112" "next (heap s 4112) = NULL"
    by (auto simp: blocks_def eval_nat_numeral split: if_splits)
  have c: "chain (heap s) (list_head s) [4096, 4104, 4112]"
    by (simp add: chain_def s) (simp add: NULL_def)
  have n: "(4120 :: int) \<noteq> NULL" by (simp add: NULL_def)
  have o: "sorted_wrt (<) [4096, 4104, 4112 :: int]" by simp
  from first_fit [OF c o _ alloc n] run c alloc n s(3) show ?thesis
    by (simp add: rounded4_def)
qed


section \<open>Mem_Free on a block of the list\<close>

lemma find_prev_stop: "find_prev h np temp prev 1 = Some prev"
  by (subst find_prev.simps) simp

lemma find_prev_found:
  "seg h a pre np \<Longrightarrow> np \<notin> set pre \<Longrightarrow> np \<noteq> NULL
     \<Longrightarrow> find_prev h np a prev 0 = Some (last (prev # pre))"
proof (induction pre arbitrary: a prev)
  case Nil
  then show ?case
    by (subst find_prev.simps) (simp add: find_prev_stop)
next
  case (Cons x xs)
  then have "find_prev h np (next (h x)) x 0 = Some (last (x # xs))"
    by auto
  with Cons.prems show ?case
    by (subst find_prev.simps) auto
qed

lemma find_prev_missing:
  "chain h a as \<Longrightarrow> np \<notin> set as \<Longrightarrow> find_prev h np a prev 0 = Some (last (prev # as))"
proof (induction as arbitrary: a prev)
  case Nil
  then show ?case
    by (subst find_prev.simps) (simp add: chain_def)
next
  case (Cons x xs)
  then have "find_prev h np (next (h x)) x 0 = Some (last (x # xs))"
    by (auto simp: chain_def)
  with Cons.prems show ?case
    by (subst find_prev.simps) (auto simp: chain_def)
qed

lemma coalesce_next_eq:
  assumes "coalesce_next pf h b = Some h'"
  shows "h' = h(b := \<lparr>next = next (h (next (h b))),
                  size_status = size_status (h b) + (size_status (h (next (h b))) + hdr pf)\<rparr>)"
proof -
  let ?v = "size_status (h b) + (size_status (h (next (h b))) + hdr pf)"
  let ?g = "set_size h b ?v"
  from assms have "h' = set_next ?g b (next (?g (next (?g b))))"
    by (auto simp: coalesce_next_def chk_eq_Some Let_def split: Option.bind_splits)
  then show ?thesis
    by (auto simp: set_size_apply set_next_apply fun_eq_iff)
qed

lemma coalesce_prev_eq:
  assumes "coalesce_prev pf h b = Some h'"
  shows "next (h b) \<noteq> NULL"
    and "h' = h(b := \<lparr>next = next (h (next (h b))),
                  size_status = size_status (h b) + size_status (h (next (h b))) + hdr pf\<rparr>)"
proof -
  let ?v = "size_status (h b) + size_status (h (next (h b))) + hdr pf"
  let ?g = "set_size h b ?v"
  from assms show "next (h b) \<noteq> NULL"
    by (auto simp: coalesce_prev_def split: if_splits)
  with assms have "h' = set_next ?g b (next (?g (next (?g b))))"
    by (auto simp: coalesce_prev_def chk_eq_Some Let_def split: Option.bind_splits)
  then show "h' = h(b := \<lparr>next = next (h (next (h b))),
                  size_status = size_status (h b) + size_status (h (next (h b))) + hdr pf\<rparr>)"
    by (auto simp: set_size_apply set_next_apply fun_eq_iff)
qed

lemma forward_frame: "forward pf h b = Some h' \<Longrightarrow> x \<noteq> b \<Longrightarrow> h' x = h x"
  by (auto simp: forward_def split: if_splits dest: coalesce_next_eq)

lemma backward_frame: "backward pf h q = Some h' \<Longrightarrow> x \<noteq> q \<Longrightarrow> h' x = h x"
  by (auto simp: backward_def split: if_splits dest: coalesce_prev_eq)

lemma seg_same:
  "(\<And>x. x \<in> set as \<Longrightarrow> h' x = h x) \<Longrightarrow> seg h' a as b = seg h a as b"
  by (rule seg_cong) simp

lemma seg_hd: "seg h a pre b \<Longrightarrow> pre \<noteq> [] \<Longrightarrow> a = hd pre"
  by (cases pre) auto

lemma seg_last: "seg h a pre b \<Longrightarrow> pre \<noteq> [] \<Longrightarrow> next (h (last pre)) = b \<and> last pre \<noteq> NULL"
  by (induction pre arbitrary: a) (auto split: if_splits)

lemma seg_not_NULL: "seg h a pre b \<Longrightarrow> NULL \<notin> set pre"
  by (induction pre arbitrary: a) auto

lemma Mem_Free_on_list:
  assumes seg: "seg (heap s) (list_head s) pre b" and b: "b \<notin> set pre" "b \<noteq> NULL"
    and p: "b + hdr pf \<noteq> NULL" and odd: "c_mod (size_status (heap s b)) 2 = 1"
  shows "Mem_Free pf (b + hdr pf) s =
     do { h2 \<leftarrow> forward pf (set_size (heap s) b (size_status (heap s b) + - 1)) b;
          h3 \<leftarrow> backward pf h2 (last (NULL # pre));
          Some (0, s\<lparr>heap := h3\<rparr>) }"
proof -
  let ?h1 = "set_size (heap s) b (size_status (heap s b) + - 1)"
  have hd: "b = list_head s \<longleftrightarrow> pre = []"
    using seg b(1) by (cases pre) auto
  have "find_prev h2 b (list_head s) NULL 0 = Some (last (NULL # pre))"
    if "forward pf ?h1 b = Some h2" for h2
  proof -
    have "h2 x = heap s x" if "x \<in> set pre" for x
      using forward_frame [OF \<open>forward pf ?h1 b = Some h2\<close>, of x] that b(1)
      by (auto simp: set_size_apply)
    then have "seg h2 (list_head s) pre b"
      using seg seg_same [of pre h2 "heap s" "list_head s" b] by simp
    then show ?thesis
      using b by (rule find_prev_found)
  qed
  note fp = this
  show ?thesis
  proof (cases "pre = []")
    case True
    with hd have "b = list_head s" by simp
    with b p odd True show ?thesis
      by (simp add: Mem_Free_def Let_def backward_def)
  next
    case False
    with hd have nh: "b \<noteq> list_head s" by simp
    show ?thesis
    proof (cases "forward pf ?h1 b")
      case None
      with b p odd nh show ?thesis
        by (simp add: Mem_Free_def Let_def)
    next
      case (Some h2)
      with b p odd nh fp [OF Some] show ?thesis
        by (simp add: Mem_Free_def Let_def)
    qed
  qed
qed


lemma total_Nil [simp]: "total pf h [] = 0"
  by (simp add: total_def)

lemma total_Cons [simp]:
  "total pf h (x # xs) = payload (size_status (h x)) + hdr pf + total pf h xs"
  by (simp add: total_def)

lemma total_append [simp]: "total pf h (xs @ ys) = total pf h xs + total pf h ys"
  by (simp add: total_def)

lemma total_nonneg:
  "\<forall>a\<in>set as. 0 \<le> payload (size_status (h a)) \<Longrightarrow> 0 \<le> hdr pf \<Longrightarrow> 0 \<le> total pf h as"
  by (induction as) auto

lemma total_ge_mem:
  assumes "\<forall>a\<in>set as. 0 \<le> payload (size_status (h a))" "0 \<le> hdr pf" "x \<in> set as"
  shows "payload (size_status (h x)) + hdr pf \<le> total pf h as"
proof -
  from assms(3) obtain xs ys where as: "as = xs @ x # ys"
    by (auto simp: in_set_conv_decomp)
  have "0 \<le> total pf h xs" "0 \<le> total pf h ys"
    using assms(1,2) by (auto simp: as intro: total_nonneg)
  then show ?thesis by (simp add: as)
qed

lemma payload_free: "c_mod v 2 = 0 \<Longrightarrow> payload v = v"
  by (simp add: payload_def busy_iff_odd c_mod_2_eq_0)

lemma forward_result:
  assumes "next (h b) \<noteq> NULL \<Longrightarrow> c_mod (size_status (h (next (h b)))) 2 = 0 \<Longrightarrow>
      INT_MIN \<le> size_status (h (next (h b))) + hdr pf \<and>
      size_status (h (next (h b))) + hdr pf \<le> INT_MAX \<and>
      INT_MIN \<le> size_status (h b) + (size_status (h (next (h b))) + hdr pf) \<and>
      size_status (h b) + (size_status (h (next (h b))) + hdr pf) \<le> INT_MAX"
  shows "\<exists>h2. forward pf h b = Some h2 \<and> (\<forall>x. x \<noteq> b \<longrightarrow> h2 x = h x) \<and>
      (size_status (h2 b) = size_status (h b) \<or>
       next (h b) \<noteq> NULL \<and> c_mod (size_status (h (next (h b)))) 2 = 0 \<and>
       size_status (h2 b) = size_status (h b) + (size_status (h (next (h b))) + hdr pf))"
proof (cases "next (h b) \<noteq> NULL \<and> c_mod (size_status (h (next (h b)))) 2 = 0")
  case True
  with assms have "coalesce_next pf h b = Some (h(b := \<lparr>next = next (h (next (h b))),
      size_status = size_status (h b) + (size_status (h (next (h b))) + hdr pf)\<rparr>))"
    by (intro coalesce_next_Some [OF refl _ _ refl]) simp_all
  with True show ?thesis by (simp add: forward_def)
next
  case False
  then show ?thesis by (auto simp: forward_def)
qed

lemma backward_result:
  assumes "q \<noteq> NULL \<Longrightarrow> c_mod (size_status (h q)) 2 = 0 \<Longrightarrow>
      next (h q) \<noteq> NULL \<and>
      INT_MIN \<le> size_status (h q) + size_status (h (next (h q))) \<and>
      size_status (h q) + size_status (h (next (h q))) \<le> INT_MAX \<and>
      INT_MIN \<le> size_status (h q) + size_status (h (next (h q))) + hdr pf \<and>
      size_status (h q) + size_status (h (next (h q))) + hdr pf \<le> INT_MAX"
  shows "\<exists>h3. backward pf h q = Some h3 \<and> (\<forall>x. x \<noteq> q \<longrightarrow> h3 x = h x)"
proof (cases "q \<noteq> NULL \<and> c_mod (size_status (h q)) 2 = 0")
  case True
  with assms have "coalesce_prev pf h q = Some (h(q := \<lparr>next = next (h (next (h q))),
      size_status = size_status (h q) + size_status (h (next (h q))) + hdr pf\<rparr>))"
    by (intro coalesce_prev_Some [OF _ refl _ _ refl]) simp_all
  with True show ?thesis by (simp add: backward_def)
next
  case False
  then show ?thesis by (auto simp: backward_def)
qed


lemma chain_split:
  assumes "chain h a (pre @ b # post)"
  shows "seg h a pre b" "b \<noteq> NULL" "chain h (next (h b)) post"
    "b \<notin> set pre" "b \<notin> set post"
proof -
  from assms obtain c where c: "seg h a pre c" "seg h c (b # post) NULL"
    by (auto simp: chain_def seg_append)
  then show "seg h a pre b" "b \<noteq> NULL" "chain h (next (h b)) post"
    by (auto simp: chain_def)
  from chain_distinct [OF assms] show "b \<notin> set pre" "b \<notin> set post"
    by auto
qed

lemma chain_next: "chain h n post \<Longrightarrow> n \<noteq> NULL \<Longrightarrow> post \<noteq> [] \<and> n = hd post"
  by (cases post) (auto simp: chain_def)





section \<open>C6: what Mem_Free accepts\<close>

text \<open>
  C6 as stated fails in one direction. Line 217 tests \<^verbatim>\<open>size_status % 2 != 1\<close>, and C's
  \<^verbatim>\<open>%\<close> gives -1 for a negative odd value: a header whose lowest bit is set is refused
  when its value is negative. Such a value is never the header of a block, but the
  address given to \<^verbatim>\<open>Mem_Free\<close> need not be a block: in \<open>scribbled\<close> the caller frees
  4112, inside its own block, and the word read as \<open>size_status\<close> is its own -1.
\<close>

lemma booted_head: "heap booted 4096 = \<lparr>next = NULL, size_status = 4088\<rparr>"
  by (simp add: booted_def set_size_apply set_next_apply)

lemma scribbled_origin:
  "\<exists>s. run pf32 [Init 3 4096 1024, Alloc 16] start = Some ([0, 4104], s) \<and>
       scribbled = s\<lparr>heap := set_size (heap s) 4104 (- 1)\<rparr>"
proof -
  have f: "fits (rounded4 16 + hdr pf32) (size_status (heap booted 4096))"
    by (simp add: fits_def booted_head rounded4_def pf32_def c_mod_def)
  have "carve pf32 (rounded4 16) (rounded4 16 + hdr pf32) (heap booted) 4096 =
      (4104, (heap booted)(4120 := \<lparr>next = NULL, size_status = 4064\<rparr>,
                          4096 := \<lparr>next = 4120, size_status = 17\<rparr>))"
    by (rule carve_split [THEN trans])
       (simp_all add: booted_head rounded4_def pf32_def c_div_def)
  then have "Mem_Alloc pf32 16 booted = Some (4104, booted\<lparr>heap :=
      (heap booted)(4120 := \<lparr>next = NULL, size_status = 4064\<rparr>,
                    4096 := \<lparr>next = 4120, size_status = 17\<rparr>)\<rparr>)"
    using f Mem_Alloc_chain [OF chain_booted, of 16 pf32]
    by (simp add: pf32_def INT_MAX_def)
  then show ?thesis
    by (simp add: Mem_Init_start scribbled_def set_size_apply set_next_apply fun_eq_iff
        booted_def zero_fill_def zero_memory_def)
qed



text \<open>
  The second part of C6 holds on a list in address order, and the split address of lines
  147 and 175 can break that order: it can also put the new block above the block that
  follows. After the calls below the list is 4096 (busy), 4160 (busy), 4152 (free, size
  4004). \<^verbatim>\<open>Mem_Alloc(4)\<close> splits the block at 4152, puts the new block at 4160, on the
  block that stands before it in the list, and returns 4160; the block at 4152 is in the
  list no more. \<^verbatim>\<open>Mem_Free(4160)\<close> does not meet it on its walk, stops with the last
  block, 4160, which is free, and line 260 reads through its \<open>next\<close>, which is \<open>NULL\<close>:
  the call has no result.
\<close>

lemma out_of_order_trace:
  "do { (rs, s) \<leftarrow> run pf32 [Init 3 4096 1024, Alloc 4, Alloc 4, Alloc 4, Alloc 4, Alloc 4,
                                 Alloc 4, Alloc 4, Alloc 8, Free 4152, Free 4144, Free 4136,
                                 Free 4128, Free 4120, Free 4112, Free 4104, Alloc 56, Alloc 4,
                                 Free 4160] start;
        (p, s1) \<leftarrow> Mem_Alloc pf32 4 s;
        Some (rs, blocks 3 s, p, blocks 2 s1, Option.is_none (Mem_Free pf32 p s1)) }
   = Some ([0, 4104, 4112, 4120, 4128, 4136, 4144, 4152, 4160, 0, 0, 0, 0, 0, 0, 0, 4104, 4168, 0],
           [(4096, 57, 4160), (4160, 13, 4152), (4152, 4004, NULL)],
           4160,
           [(4096, 57, 4160), (4160, 3992, NULL)],
           True)"
  by code_simp

lemma free_after_alloc_out_of_order:
  "\<exists>rs s s1.
     run pf32 [Init 3 4096 1024, Alloc 4, Alloc 4, Alloc 4, Alloc 4, Alloc 4, Alloc 4, Alloc 4,
               Alloc 8, Free 4152, Free 4144, Free 4136, Free 4128, Free 4120, Free 4112,
               Free 4104, Alloc 56, Alloc 4, Free 4160] start = Some (rs, s) \<and>
     blocks 3 s = [(4096, 57, 4160), (4160, 13, 4152), (4152, 4004, NULL)] \<and>
     Mem_Alloc pf32 4 s = Some (4160, s1) \<and>
     Mem_Free pf32 4160 s1 = None"
  using out_of_order_trace
  by (auto simp: Option.bind_eq_Some_conv Option.is_none_def)






section \<open>C4: no two adjacent free blocks after Mem_Free\<close>

lemma naf_cong:
  "(\<And>x. x \<in> set as \<Longrightarrow> busy (size_status (h' x)) = busy (size_status (h x)))
     \<Longrightarrow> no_adjacent_free h' as = no_adjacent_free h as"
  by (induction h as rule: no_adjacent_free.induct) auto

lemma naf_append:
  "no_adjacent_free h (xs @ ys) \<longleftrightarrow>
     no_adjacent_free h xs \<and> no_adjacent_free h ys \<and>
     (xs = [] \<or> ys = [] \<or> busy (size_status (h (last xs))) \<or> busy (size_status (h (hd ys))))"
proof (induction h xs rule: no_adjacent_free.induct)
  case (2 h a)
  then show ?case by (cases ys) auto
qed auto

lemma naf_tl: "no_adjacent_free h as \<Longrightarrow> no_adjacent_free h (tl as)"
  by (induction h as rule: no_adjacent_free.induct) auto

lemma naf_free_hd:
  "no_adjacent_free h as \<Longrightarrow> as \<noteq> [] \<Longrightarrow> \<not> busy (size_status (h (hd as)))
     \<Longrightarrow> tl as = [] \<or> busy (size_status (h (hd (tl as))))"
  by (induction h as rule: no_adjacent_free.induct) auto

lemma Mem_Free_result:
  assumes "Mem_Free pf ptr s = Some (r, s')"
  shows "r = - 1 \<and> s' = s \<or>
         r = 0 \<and> ptr \<noteq> NULL \<and> ptr - hdr pf \<noteq> NULL \<and>
           c_mod (size_status (heap s (ptr - hdr pf))) 2 = 1"
  using assms by (auto simp: Mem_Free_def Let_def split: if_splits Option.bind_splits)

lemma chain_same:
  "(\<And>x. x \<in> set as \<Longrightarrow> h' x = h x) \<Longrightarrow> chain h' a as = chain h a as"
  unfolding chain_def by (rule seg_cong) simp

lemma free_foreign:
  assumes ch: "chain (heap s) (list_head s) as" and b: "ptr - hdr pf \<notin> set as"
    and fr: "Mem_Free pf ptr s = Some (0, s')"
  shows "\<forall>x\<in>set as. heap s' x = heap s x"
proof -
  define b where "b = ptr - hdr pf"
  define h1 where "h1 = set_size (heap s) b (size_status (heap s b) + - 1)"
  from Mem_Free_result [OF fr] have p: "ptr \<noteq> NULL" "b \<noteq> NULL"
    "c_mod (size_status (heap s b)) 2 = 1"
    by (simp_all add: b_def)
  have nh: "b \<noteq> list_head s"
    using ch b p(2) by (cases as) (auto simp: chain_def b_def)
  from fr p nh obtain h2 q h3 where
    fw: "forward pf h1 b = Some h2" and fp: "find_prev h2 b (list_head s) NULL 0 = Some q"
    and bw: "backward pf h2 q = Some h3" and s': "s' = s\<lparr>heap := h3\<rparr>"
    unfolding h1_def b_def
    by (auto simp: Mem_Free_def Let_def split: if_splits Option.bind_splits)
  have same2: "h2 x = heap s x" if "x \<in> set as" for x
    using forward_frame [OF fw, of x] that b by (auto simp: h1_def set_size_apply b_def)
  then have ch2: "chain h2 (list_head s) as"
    using ch chain_same [of as h2 "heap s" "list_head s"] by simp
  from find_prev_missing [OF ch2, of b NULL] b fp have q: "q = last (NULL # as)"
    by (simp add: b_def)
  have "h3 = h2"
  proof (cases "as = []")
    case True
    with q bw show ?thesis by (simp add: backward_def)
  next
    case False
    with q have ql: "q = last as" by simp
    from ch2 False have "next (h2 q) = NULL"
      unfolding ql chain_def by (induction as arbitrary: s rule: rev_induct) (auto simp: seg_append)
    with bw show ?thesis
      by (auto simp: backward_def split: if_splits dest: coalesce_prev_eq(1))
  qed
  with same2 s' show ?thesis by simp
qed


lemma in_tl: "x \<in> set (tl xs) \<Longrightarrow> x \<in> set xs"
  by (cases xs) auto

lemma chain_end:
  "chain h n post \<Longrightarrow>
     post = [] \<and> n = NULL \<or>
     post \<noteq> [] \<and> n = hd post \<and> n \<noteq> NULL \<and> chain h (next (h n)) (tl post)"
  by (cases post) (auto simp: chain_def)

lemma seg_snoc: "seg h a (xs @ [q]) b \<longleftrightarrow> seg h a xs q \<and> q \<noteq> NULL \<and> next (h q) = b"
  by (auto simp: seg_append)

lemma free_listed:
  assumes H: "even (hdr pf)"
    and ch: "chain (heap s) (list_head s) (pre @ b # post)"
    and odd: "c_mod (size_status (heap s b)) 2 = 1" and pn: "b + hdr pf \<noteq> NULL"
    and fr: "Mem_Free pf (b + hdr pf) s = Some (r, s')"
  shows "r = 0 \<and> list_head s' = list_head s \<and>
     chain (heap s') (list_head s') (after_free (heap s) pre b post) \<and>
     (\<forall>x\<in>set pre \<union> set post. busy (size_status (heap s' x)) = busy (size_status (heap s x))) \<and>
     \<not> busy (size_status (heap s' b)) \<and>
     size_status (heap s' (absorber (heap s) pre b)) = merged_size pf (heap s) pre b post \<and>
     (\<forall>x\<in>set pre \<union> set post. x \<noteq> absorber (heap s) pre b \<longrightarrow> heap s' x = heap s x)"
proof -
  let ?h = "heap s"
  note cs = chain_split [OF ch]
  have dist: "distinct (pre @ b # post)" by (rule chain_distinct [OF ch])
  define h1 where "h1 = set_size ?h b (size_status (?h b) + - 1)"
  define q where "q = last (NULL # pre)"
  define n where "n = next (?h b)"
  define F where "F \<longleftrightarrow> post \<noteq> [] \<and> \<not> busy (size_status (?h (hd post)))"
  define B where "B \<longleftrightarrow> pre \<noteq> [] \<and> \<not> busy (size_status (?h (last pre)))"
  define post2 where "post2 = (if F then tl post else post)"
  from fr [unfolded Mem_Free_on_list [OF cs(1,4,2) pn odd]] obtain h2 h3 where
    fw: "forward pf h1 b = Some h2" and bw: "backward pf h2 q = Some h3"
    and s': "s' = s\<lparr>heap := h3\<rparr>" and r: "r = 0"
    unfolding h1_def q_def by (auto split: Option.bind_splits)
  have h1: "h1 b = \<lparr>next = n, size_status = size_status (?h b) - 1\<rparr>"
    "\<And>x. x \<noteq> b \<Longrightarrow> h1 x = ?h x"
    by (simp_all add: h1_def n_def set_size_apply)
  have S: "odd (size_status (?h b))" using odd by (simp add: c_mod_2_eq_1)
  note e = chain_end [OF cs(3), folded n_def]
  \<comment> \<open>the block after \<open>b\<close>\<close>
  have "((\<forall>x. x \<noteq> b \<longrightarrow> h2 x = ?h x) \<and> even (size_status (h2 b)) \<and>
      chain h2 (next (h2 b)) post2) \<and> size_status (h2 b) = freed_size pf ?h b post"
  proof (cases F)
    case True
    with e have n: "n = hd post" "n \<noteq> NULL" "chain ?h (next (?h n)) (tl post)" "post \<noteq> []"
      by (auto simp: F_def)
    then have nb: "n \<noteq> b" using cs(5) by (cases post) auto
    have ev: "even (size_status (?h n))" using True by (simp add: F_def n busy_iff_odd)
    from fw have "coalesce_next pf h1 b = Some h2"
      using n nb ev by (simp add: forward_def h1 c_mod_2_eq_0)
    from coalesce_next_eq [OF this]
    have eq: "h2 = h1(b := \<lparr>next = next (?h n),
        size_status = size_status (?h b) - 1 + (size_status (?h n) + hdr pf)\<rparr>)"
      using nb by (simp add: h1)
    have "x \<noteq> b" if "x \<in> set (tl post)" for x
      using that cs(5) n(4) by (auto dest: in_tl)
    then have "\<And>x. x \<in> set (tl post) \<Longrightarrow> h2 x = ?h x"
      by (simp add: eq h1)
    then have "chain h2 (next (?h n)) (tl post) = chain ?h (next (?h n)) (tl post)"
      by (rule chain_same)
    with n(3) have "chain h2 (next (?h n)) (tl post)" by simp
    then show ?thesis
      using True S ev H n(1) by (simp add: eq h1 post2_def freed_size_def F_def)
  next
    case False
    with e have "n = NULL \<or> c_mod (size_status (h1 n)) 2 \<noteq> 0"
      using cs(5) by (cases post) (auto simp: F_def h1 c_mod_2_eq_0 busy_iff_odd)
    with fw have eq: "h2 = h1"
      by (auto simp: forward_def h1 split: if_splits)
    have "x \<noteq> b" if "x \<in> set post" for x
      using that cs(5) by auto
    then have "\<And>x. x \<in> set post \<Longrightarrow> h2 x = ?h x"
      by (simp add: eq h1)
    then have "chain h2 n post = chain ?h n post"
      by (rule chain_same)
    with cs(3) have "chain h2 n post" by (simp add: n_def)
    then show ?thesis
      using False S by (auto simp: eq h1 post2_def freed_size_def F_def)
  qed
  then have h2: "(\<forall>x. x \<noteq> b \<longrightarrow> h2 x = ?h x) \<and> even (size_status (h2 b)) \<and>
      chain h2 (next (h2 b)) post2"
    and fs: "size_status (h2 b) = freed_size pf ?h b post"
    by blast+
  \<comment> \<open>the block before \<open>b\<close>\<close>
  have pre_same: "\<And>x. x \<in> set pre \<Longrightarrow> h2 x = ?h x"
    using h2 cs(4) by auto
  have post_sub: "set post2 \<subseteq> set post"
    by (auto simp: post2_def dest: in_tl)
  show ?thesis
  proof (cases B)
    case True
    then have ne: "pre \<noteq> []" and qf: "\<not> busy (size_status (?h q))"
      by (simp_all add: B_def q_def)
    define pre0 where "pre0 = butlast pre"
    from ne have pre: "pre = pre0 @ [q]" by (simp add: q_def pre0_def)
    have qin: "q \<in> set pre" using ne by (simp add: q_def)
    then have qb: "q \<noteq> b" using cs(4) by auto
    from cs(1) have sq: "seg ?h (list_head s) pre0 q" "q \<noteq> NULL" "next (?h q) = b"
      by (simp_all add: pre seg_snoc)
    have "coalesce_prev pf h2 q = Some h3"
      using bw sq(2) qf by (simp add: backward_def pre_same [OF qin] c_mod_2_eq_0 busy_iff_odd)
    from coalesce_prev_eq(2) [OF this]
    have eq: "h3 = h2(q := \<lparr>next = next (h2 b),
        size_status = size_status (?h q) + size_status (h2 b) + hdr pf\<rparr>)"
      by (simp add: pre_same [OF qin] sq)
    have d: "q \<notin> set pre0" "q \<notin> set post" "b \<notin> set pre0"
      using dist by (simp_all add: pre)
    have "\<And>x. x \<in> set pre0 \<Longrightarrow> h3 x = ?h x"
      using d h2 by (auto simp: eq)
    then have "seg h3 (list_head s) pre0 q = seg ?h (list_head s) pre0 q"
      by (rule seg_same)
    with sq(1) have "seg h3 (list_head s) pre0 q" by simp
    moreover
    have "\<And>x. x \<in> set post2 \<Longrightarrow> h3 x = h2 x"
      using d(2) post_sub by (auto simp: eq)
    then have "chain h3 (next (h2 b)) post2 = chain h2 (next (h2 b)) post2"
      by (rule chain_same)
    with h2 have "chain h3 (next (h3 q)) post2" by (simp add: eq)
    ultimately have "chain h3 (list_head s) (pre0 @ q # post2)"
      using sq(2) by (simp add: chain_def seg_append)
    then have "chain h3 (list_head s) (pre @ post2)"
      by (simp add: pre)
    then have c: "chain (heap s') (list_head s') (after_free ?h pre b post)"
      using True by (simp add: after_free_def s' B_def post2_def F_def)
    have "busy (size_status (h3 x)) = busy (size_status (?h x))" if "x \<in> set pre \<union> set post" for x
    proof (cases "x = q")
      case True
      have "even (size_status (h3 q))"
        using h2 qf H by (simp add: eq busy_iff_odd)
      with qf True show ?thesis by (simp add: busy_iff_odd)
    next
      case False
      moreover have "x \<noteq> b" using that cs(4,5) by auto
      ultimately show ?thesis using h2 by (simp add: eq)
    qed
    moreover have "\<not> busy (size_status (h3 b))"
      using h2 qb by (simp add: eq busy_iff_odd)
    moreover have "absorber ?h pre b = q"
      using ne qf by (simp add: absorber_def q_def)
    moreover have "size_status (h3 q) = merged_size pf ?h pre b post"
      using ne qf fs by (simp add: eq merged_size_def q_def)
    moreover have "\<forall>x\<in>set pre \<union> set post. x \<noteq> q \<longrightarrow> h3 x = ?h x"
      using cs(4,5) h2 by (auto simp: eq)
    ultimately show ?thesis
      using r c by (simp add: s')
  next
    case False
    have eq: "h3 = h2"
    proof (cases "pre = []")
      case True
      with bw show ?thesis by (simp add: backward_def q_def)
    next
      case ne: False
      then have "q \<in> set pre" by (simp add: q_def)
      with False ne bw show ?thesis
        by (auto simp: backward_def B_def q_def pre_same c_mod_2_eq_0 busy_iff_odd
            split: if_splits)
    qed
    have "seg h2 (list_head s) pre b = seg ?h (list_head s) pre b"
      using pre_same by (rule seg_same)
    with cs(1) have "seg h2 (list_head s) pre b" by simp
    then have "chain h2 (list_head s) (pre @ b # post2)"
      using h2 cs(2) by (auto simp: chain_def seg_append)
    moreover have "after_free ?h pre b post = pre @ b # post2"
      using False by (auto simp: after_free_def B_def post2_def F_def)
    ultimately have c: "chain (heap s') (list_head s') (after_free ?h pre b post)"
      by (simp add: s' eq)
    have "busy (size_status (h3 x)) = busy (size_status (?h x))" if "x \<in> set pre \<union> set post" for x
    proof -
      have "x \<noteq> b" using that cs(4,5) by auto
      then show ?thesis using h2 by (simp add: eq)
    qed
    moreover have "\<not> busy (size_status (h3 b))"
      using h2 by (simp add: eq busy_iff_odd)
    moreover have "absorber ?h pre b = b"
      using False by (auto simp: absorber_def B_def)
    moreover have "size_status (h3 b) = merged_size pf ?h pre b post"
      using False fs by (auto simp: eq merged_size_def B_def)
    moreover have "\<forall>x\<in>set pre \<union> set post. h3 x = ?h x"
      using cs(4,5) h2 by (auto simp: eq)
    ultimately show ?thesis
      using r c by (simp add: s')
  qed
qed

lemma naf_after_free:
  assumes naf: "no_adjacent_free h (pre @ b # post)"
    and same: "\<And>x. x \<in> set pre \<union> set post \<Longrightarrow>
        busy (size_status (h' x)) = busy (size_status (h x))"
  shows "no_adjacent_free h' (after_free h pre b post)"
proof -
  define post2 where
    "post2 = (if post \<noteq> [] \<and> \<not> busy (size_status (h (hd post))) then tl post else post)"
  define mid where
    "mid = (if pre \<noteq> [] \<and> \<not> busy (size_status (h (last pre))) then [] else [b])"
  from naf have p: "no_adjacent_free h pre" "no_adjacent_free h post"
    using naf_append [of h pre "b # post"] naf_tl [of h "b # post"] by auto
  have sub: "set post2 \<subseteq> set post"
    by (auto simp: post2_def dest: in_tl)
  have "no_adjacent_free h post2"
    using p(2) by (simp add: post2_def naf_tl)
  then have n2: "no_adjacent_free h' post2"
    using naf_cong [of post2 h' h] same sub by auto
  have n1: "no_adjacent_free h' pre"
    using naf_cong [of pre h' h] same p(1) by auto
  have "post2 = [] \<or> busy (size_status (h (hd post2)))"
    using naf_free_hd [OF p(2)] by (auto simp: post2_def)
  moreover have "post2 \<noteq> [] \<Longrightarrow> hd post2 \<in> set post"
    using sub by auto
  ultimately have j2: "post2 = [] \<or> busy (size_status (h' (hd post2)))"
    using same by auto
  have j1: "mid = [] \<or> pre = [] \<or> busy (size_status (h' (last pre)))"
  proof (cases "pre = []")
    case False
    then have "last pre \<in> set pre" by simp
    then show ?thesis using same [of "last pre"] by (auto simp: mid_def)
  qed simp
  have m: "no_adjacent_free h' (mid @ post2)"
    using n2 j2 by (cases post2) (auto simp: mid_def)
  have "no_adjacent_free h' (pre @ mid @ post2)"
  proof (cases "mid = []")
    case True
    with n1 n2 j2 show ?thesis by (auto simp: naf_append)
  next
    case False
    then have "mid = [b]" by (simp add: mid_def split: if_splits)
    with n1 m j1 show ?thesis by (auto simp: naf_append)
  qed
  then show ?thesis
    by (simp add: after_free_def mid_def post2_def)
qed

lemma sorted_after_free:
  "sorted_wrt (<) (pre @ b # post) \<Longrightarrow> sorted_wrt (<) (after_free h pre b (post :: addr list))"
  by (cases post) (auto simp: after_free_def sorted_wrt_append)

lemma total_cong:
  "(\<And>x. x \<in> set as \<Longrightarrow> h' x = h x) \<Longrightarrow> total pf h' as = total pf h as"
  by (induction as) auto

lemma total_after_free:
  assumes H: "even (hdr pf)" and d: "distinct (pre @ b # post)"
    and odd: "odd (size_status (h b))"
    and ms: "size_status (h' (absorber h pre b)) = merged_size pf h pre b post"
    and cells: "\<And>x. x \<in> set pre \<union> set post \<Longrightarrow> x \<noteq> absorber h pre b \<Longrightarrow> h' x = h x"
  shows "total pf h' (after_free h pre b post) = total pf h (pre @ b # post)"
proof -
  define F where "F \<longleftrightarrow> post \<noteq> [] \<and> \<not> busy (size_status (h (hd post)))"
  define B where "B \<longleftrightarrow> pre \<noteq> [] \<and> \<not> busy (size_status (h (last pre)))"
  define post2 where "post2 = (if F then tl post else post)"
  define fs where "fs = freed_size pf h b post"
  have fs_even: "even fs"
    using odd H by (auto simp: fs_def freed_size_def busy_iff_odd)
  have tp: "total pf h post =
      total pf h post2 + (if F then size_status (h (hd post)) + hdr pf else 0)"
    by (cases post) (auto simp: post2_def F_def payload_def)
  have fsv: "fs = size_status (h b) - 1 + (if F then size_status (h (hd post)) + hdr pf else 0)"
    by (simp add: fs_def freed_size_def F_def)
  have pb: "payload (size_status (h b)) = size_status (h b) - 1"
    using odd by (simp add: payload_def busy_iff_odd)
  have sub: "set post2 \<subseteq> set post"
    by (auto simp: post2_def dest: in_tl)
  show ?thesis
  proof (cases B)
    case True
    define q where "q = last pre"
    define pre0 where "pre0 = butlast pre"
    from True have pre: "pre = pre0 @ [q]" and qf: "\<not> busy (size_status (h q))"
      by (simp_all add: B_def q_def pre0_def)
    have ab: "absorber h pre b = q"
      using True by (simp add: absorber_def B_def q_def)
    have dq: "q \<notin> set pre0" "q \<notin> set post" "q \<noteq> b"
      using d by (auto simp: pre)
    have t0: "total pf h' pre0 = total pf h pre0"
    proof (rule total_cong)
      fix x assume "x \<in> set pre0"
      then have "x \<in> set pre \<union> set post" "x \<noteq> q"
        using dq pre by auto
      then show "h' x = h x"
        using cells [of x] by (simp add: ab)
    qed
    have t2: "total pf h' post2 = total pf h post2"
      using dq cells sub by (intro total_cong) (auto simp: ab)
    have sq: "size_status (h' q) = size_status (h q) + fs + hdr pf"
      using ms True by (simp add: ab merged_size_def fs_def B_def q_def)
    have "even (size_status (h' q))"
      using qf fs_even H by (simp add: sq busy_iff_odd)
    then have pq: "payload (size_status (h' q)) = size_status (h q) + fs + hdr pf"
      by (simp add: payload_def busy_iff_odd sq)
    have pq0: "payload (size_status (h q)) = size_status (h q)"
      using qf by (simp add: payload_def)
    have af: "after_free h pre b post = pre0 @ q # post2"
      using qf by (simp add: after_free_def post2_def F_def pre)
    show ?thesis
      unfolding af by (simp add: t0 t2 pq pre pq0 pb tp fsv)
  next
    case False
    have ab: "absorber h pre b = b"
      using False by (auto simp: absorber_def B_def)
    have db: "b \<notin> set pre" "b \<notin> set post"
      using d by auto
    have t0: "total pf h' pre = total pf h pre"
      using db cells by (intro total_cong) (auto simp: ab)
    have t2: "total pf h' post2 = total pf h post2"
      using db cells sub by (intro total_cong) (auto simp: ab)
    have sq: "size_status (h' b) = fs"
      using ms False by (auto simp: ab merged_size_def fs_def B_def)
    then have pq: "payload (size_status (h' b)) = fs"
      using fs_even by (simp add: payload_def busy_iff_odd)
    have af: "after_free h pre b post = pre @ b # post2"
      using False by (auto simp: after_free_def B_def post2_def F_def)
    show ?thesis
      by (simp add: af t0 t2 pq pb tp fsv)
  qed
qed


text \<open>
  The call does return for a busy block of the list when the sizes of the list are not
  negative and add up to at most \<open>INT_MAX\<close>: the walk finds the block, and no sum made
  while coalescing overflows.
\<close>

lemma payload_busy: "c_mod v 2 = 1 \<Longrightarrow> payload v = v - 1"
  by (simp add: payload_def busy_iff_odd c_mod_2_eq_1)

lemma Mem_Free_returns:
  assumes H: "0 < hdr pf"
    and ch: "chain (heap s) (list_head s) as"
    and pos: "\<forall>a\<in>set as. 0 < a \<and> 0 \<le> payload (size_status (heap s a))"
    and tot: "total pf (heap s) as \<le> INT_MAX"
    and b: "b \<in> set as" and odd: "c_mod (size_status (heap s b)) 2 = 1"
  shows "\<exists>s'. Mem_Free pf (b + hdr pf) s = Some (0, s')"
proof -
  let ?h = "heap s" and ?H = "hdr pf"
  from b obtain pre post where as: "as = pre @ b # post"
    by (auto simp: in_set_conv_decomp)
  note cs = chain_split [OF ch [unfolded as]]
  define S where "S = size_status (?h b)"
  define h1 where "h1 = set_size ?h b (size_status (?h b) + - 1)"
  define q where "q = last (NULL # pre)"
  have nonneg: "\<forall>a\<in>set as. 0 \<le> payload (size_status (?h a))" using pos by simp
  have tpost: "0 \<le> total pf ?h post" and tpre: "0 \<le> total pf ?h pre"
    using nonneg H by (auto simp: as intro!: total_nonneg)
  have pS: "payload S = S - 1" using odd by (simp add: S_def payload_busy)
  have S1: "1 \<le> S" using odd by (simp add: S_def c_mod_2_eq_1)
  have T: "total pf ?h pre + (S - 1 + ?H) + total pf ?h post \<le> INT_MAX"
    using tot pS by (simp add: as S_def)
  have b0: "0 < b" using pos by (simp add: as)
  have pn: "b + ?H \<noteq> NULL" using b0 H by (simp add: NULL_def)
  have h1: "h1 b = \<lparr>next = next (?h b), size_status = S - 1\<rparr>"
    "\<And>x. x \<noteq> b \<Longrightarrow> h1 x = ?h x"
    by (simp_all add: h1_def S_def set_size_apply)
  have bound: "next (?h b) \<noteq> b \<and> 0 \<le> size_status (?h (next (?h b))) \<and>
        size_status (?h (next (?h b))) + ?H \<le> total pf ?h post"
    if n: "next (?h b) \<noteq> NULL" "c_mod (size_status (h1 (next (h1 b)))) 2 = 0"
  proof -
    from chain_next [OF cs(3) n(1)] have m: "next (?h b) \<in> set post" by simp
    with cs(5) have nb: "next (?h b) \<noteq> b" by auto
    with n(2) have e: "c_mod (size_status (?h (next (?h b)))) 2 = 0" by (simp add: h1)
    from m have "next (?h b) \<in> set as" by (simp add: as)
    with nonneg have "0 \<le> payload (size_status (?h (next (?h b))))" by blast
    moreover have "payload (size_status (?h (next (?h b)))) + ?H \<le> total pf ?h post"
      using nonneg H m by (intro total_ge_mem) (auto simp: as)
    ultimately show ?thesis using nb by (simp add: payload_free [OF e])
  qed
  have "\<exists>h2. forward pf h1 b = Some h2 \<and> (\<forall>x. x \<noteq> b \<longrightarrow> h2 x = h1 x) \<and>
      (size_status (h2 b) = size_status (h1 b) \<or>
       next (h1 b) \<noteq> NULL \<and> c_mod (size_status (h1 (next (h1 b)))) 2 = 0 \<and>
       size_status (h2 b) = size_status (h1 b) + (size_status (h1 (next (h1 b))) + ?H))"
  proof (rule forward_result)
    assume n: "next (h1 b) \<noteq> NULL" "c_mod (size_status (h1 (next (h1 b)))) 2 = 0"
    then have "next (?h b) \<noteq> NULL" by (simp add: h1)
    from bound [OF this n(2)] T tpre S1 H
    show "INT_MIN \<le> size_status (h1 (next (h1 b))) + ?H \<and>
      size_status (h1 (next (h1 b))) + ?H \<le> INT_MAX \<and>
      INT_MIN \<le> size_status (h1 b) + (size_status (h1 (next (h1 b))) + ?H) \<and>
      size_status (h1 b) + (size_status (h1 (next (h1 b))) + ?H) \<le> INT_MAX"
      by (simp add: h1 INT_MIN_def)
  qed
  then obtain h2 where fw: "forward pf h1 b = Some h2" and fr2: "\<forall>x. x \<noteq> b \<longrightarrow> h2 x = h1 x"
    and E: "size_status (h2 b) = S - 1 \<or>
       next (?h b) \<noteq> NULL \<and> c_mod (size_status (h1 (next (h1 b)))) 2 = 0 \<and>
       size_status (h2 b) = S - 1 + (size_status (h1 (next (h1 b))) + ?H)"
    by (auto simp: h1)
  have Eb: "0 \<le> size_status (h2 b) \<and> size_status (h2 b) \<le> S - 1 + total pf ?h post"
    using E
  proof
    assume "size_status (h2 b) = S - 1"
    then show ?thesis using S1 tpost by simp
  next
    assume a: "next (?h b) \<noteq> NULL \<and> c_mod (size_status (h1 (next (h1 b)))) 2 = 0 \<and>
       size_status (h2 b) = S - 1 + (size_status (h1 (next (h1 b))) + ?H)"
    with bound have "next (?h b) \<noteq> b \<and> 0 \<le> size_status (?h (next (?h b))) \<and>
        size_status (?h (next (?h b))) + ?H \<le> total pf ?h post" by blast
    with a S1 H show ?thesis by (simp add: h1)
  qed
  have pre2: "h2 x = ?h x" if "x \<in> set pre" for x
  proof -
    from that cs(4) have "x \<noteq> b" by auto
    with fr2 h1(2) show ?thesis by simp
  qed
  have "\<exists>h3. backward pf h2 q = Some h3 \<and> (\<forall>x. x \<noteq> q \<longrightarrow> h3 x = h2 x)"
  proof (rule backward_result, intro conjI)
    assume qq: "q \<noteq> NULL" "c_mod (size_status (h2 q)) 2 = 0"
    then have ne: "pre \<noteq> []" and qp: "q = last pre" by (auto simp: q_def split: if_splits)
    then have qin: "q \<in> set pre" by simp
    then have hq: "h2 q = ?h q" by (rule pre2)
    from seg_last [OF cs(1) ne] have nx: "next (?h q) = b" by (simp add: qp)
    have "q \<in> set as" using qin by (simp add: as)
    with nonneg have "0 \<le> payload (size_status (?h q))" by blast
    moreover have "payload (size_status (?h q)) + ?H \<le> total pf ?h pre"
      using nonneg H qin by (intro total_ge_mem) (auto simp: as)
    ultimately have Q: "0 \<le> size_status (?h q)" "size_status (?h q) + ?H \<le> total pf ?h pre"
      using qq(2) by (simp_all add: hq payload_free)
    show "next (h2 q) \<noteq> NULL" using cs(2) by (simp add: hq nx)
    show "INT_MIN \<le> size_status (h2 q) + size_status (h2 (next (h2 q)))"
      using Q Eb by (simp add: hq nx INT_MIN_def)
    show "size_status (h2 q) + size_status (h2 (next (h2 q))) \<le> INT_MAX"
      using Q Eb T H by (simp add: hq nx)
    show "INT_MIN \<le> size_status (h2 q) + size_status (h2 (next (h2 q))) + ?H"
      using Q Eb H by (simp add: hq nx INT_MIN_def)
    show "size_status (h2 q) + size_status (h2 (next (h2 q))) + ?H \<le> INT_MAX"
      using Q Eb T H by (simp add: hq nx)
  qed
  then obtain h3 where bw: "backward pf h2 q = Some h3" by blast
  show ?thesis
    using Mem_Free_on_list [OF cs(1,4,2) pn odd] fw bw by (simp add: h1_def q_def)
qed

lemma after_free_subset:
  "set (after_free h pre b post) \<subseteq> insert (absorber h pre b) (set pre \<union> set post)"
  by (auto simp: after_free_def absorber_def dest: in_tl)

text \<open>
  C4. Take a list (from the head to \<open>NULL\<close>) on which no two consecutive blocks are both
  free, and any call of \<^verbatim>\<open>Mem_Free\<close> that returns. Afterwards there is again a list on
  which no two consecutive blocks are both free, in increasing address order when the
  list before was, and its payloads and headers add up to what they added up to before.
  When the call returned 0 for a block \<open>b\<close> of the list, the new list is the old one
  without the block after \<open>b\<close> if that was free and without \<open>b\<close> if the block before it
  was free. The bytes of the blocks that left the list are in the block that absorbed
  them: when the block before \<open>b\<close> was busy (or \<open>b\<close> is the head), \<open>b\<close> has the size
  \<open>size_status - 1\<close>, plus the size and a header for a free block after it; when the block
  before \<open>b\<close> was free, that block has its old size plus a header plus all of that. Every
  other block of the new list is as it was. When the call failed, or the address is not
  that of a block of the list, the list and its blocks are as they were.
\<close>

theorem free_keeps_no_adjacent_free:
  assumes pf: "platform_ok pf"
    and ch: "chain (heap s) (list_head s) as" and naf: "no_adjacent_free (heap s) as"
    and fr: "Mem_Free pf ptr s = Some (r, s')"
  shows "\<exists>as'. chain (heap s') (list_head s') as' \<and> no_adjacent_free (heap s') as' \<and>
           (sorted_wrt (<) as \<longrightarrow> sorted_wrt (<) as') \<and>
           total pf (heap s') as' = total pf (heap s) as \<and>
           (if r = 0 \<and> ptr - hdr pf \<in> set as
            then \<exists>pre post. as = pre @ (ptr - hdr pf) # post \<and>
                   as' = after_free (heap s) pre (ptr - hdr pf) post \<and>
                   size_status (heap s' (absorber (heap s) pre (ptr - hdr pf))) =
                     merged_size pf (heap s) pre (ptr - hdr pf) post \<and>
                   (\<forall>x\<in>set as'. x \<noteq> absorber (heap s) pre (ptr - hdr pf) \<longrightarrow>
                      heap s' x = heap s x)
            else as' = as \<and> (\<forall>x\<in>set as. heap s' x = heap s x))"
proof -
  define b where "b = ptr - hdr pf"
  from pf have H: "even (hdr pf)" by (auto simp: platform_ok_def)
  have lh: "list_head s' = list_head s" using Mem_Free_globals [OF fr] by simp
  from Mem_Free_result [OF fr] consider
    (fail) "r = - 1" "s' = s"
    | (foreign) "r = 0" "b \<notin> set as"
    | (listed) "r = 0" "b \<in> set as" "ptr \<noteq> NULL" "c_mod (size_status (heap s b)) 2 = 1"
    by (auto simp: b_def)
  then show ?thesis
  proof cases
    case fail
    with ch naf show ?thesis by (intro exI [of _ as]) simp
  next
    case foreign
    from free_foreign [OF ch _ fr [unfolded foreign(1)]] foreign(2)
    have same: "\<And>x. x \<in> set as \<Longrightarrow> heap s' x = heap s x"
      by (simp add: b_def)
    then have "chain (heap s') (list_head s') as = chain (heap s) (list_head s) as"
      unfolding lh by (rule chain_same)
    moreover have "no_adjacent_free (heap s') as = no_adjacent_free (heap s) as"
      using same by (intro naf_cong) simp
    moreover have "total pf (heap s') as = total pf (heap s) as"
      using same by (rule total_cong)
    ultimately show ?thesis
      using ch naf foreign(2) same by (intro exI [of _ as]) (simp add: b_def)
  next
    case listed
    then obtain pre post where as: "as = pre @ b # post"
      by (auto simp: in_set_conv_decomp)
    define as' where "as' = after_free (heap s) pre b post"
    have p: "b + hdr pf = ptr" by (simp add: b_def)
    from free_listed [OF H ch [unfolded as] listed(4), of r s'] fr listed(3)
    have c: "chain (heap s') (list_head s') as'"
      and same: "\<forall>x\<in>set pre \<union> set post.
        busy (size_status (heap s' x)) = busy (size_status (heap s x))"
      and ms: "size_status (heap s' (absorber (heap s) pre b)) = merged_size pf (heap s) pre b post"
      and cells: "\<forall>x\<in>set pre \<union> set post. x \<noteq> absorber (heap s) pre b \<longrightarrow> heap s' x = heap s x"
      by (auto simp: p as'_def)
    have n: "no_adjacent_free (heap s') as'"
      unfolding as'_def using naf [unfolded as] same by (intro naf_after_free) auto
    have t: "total pf (heap s') as' = total pf (heap s) as"
      unfolding as'_def as
    proof (rule total_after_free [of pf pre b post "heap s" "heap s'", OF H _ _ ms])
      show "distinct (pre @ b # post)"
        using chain_distinct [OF ch] by (simp add: as)
      show "odd (size_status (heap s b))"
        using listed(4) by (simp add: c_mod_2_eq_1)
      show "heap s' x = heap s x"
        if "x \<in> set pre \<union> set post" "x \<noteq> absorber (heap s) pre b" for x
        using that cells by blast
    qed
    have u: "\<forall>x\<in>set as'. x \<noteq> absorber (heap s) pre b \<longrightarrow> heap s' x = heap s x"
      using cells after_free_subset [of "heap s" pre b post] by (auto simp: as'_def)
    have so: "sorted_wrt (<) as \<longrightarrow> sorted_wrt (<) as'"
      using sorted_after_free [of pre b post "heap s"] by (simp add: as as'_def)
    have "\<exists>pre post. as = pre @ b # post \<and> as' = after_free (heap s) pre b post \<and>
        size_status (heap s' (absorber (heap s) pre b)) = merged_size pf (heap s) pre b post \<and>
        (\<forall>x\<in>set as'. x \<noteq> absorber (heap s) pre b \<longrightarrow> heap s' x = heap s x)"
      using as ms u as'_def by blast
    with c n t so listed(1,2) show ?thesis
      unfolding b_def by (intro exI [of _ as']) simp
  qed
qed

lemma merge_trace:
  "do { (rs, s) \<leftarrow> run pf32 [Init 3 4096 1024, Alloc 4, Alloc 4, Alloc 4, Free 4104, Free 4120]
                      start;
        (r, s') \<leftarrow> Mem_Free pf32 4112 s;
        Some (rs, blocks 4 s, r, blocks 4 s') }
   = Some ([0, 4104, 4112, 4120, 0, 0],
           [(4096, 4, 4104), (4104, 5, 4112), (4112, 4064, NULL)],
           0,
           [(4096, 4088, NULL)])"
  by code_simp

theorem free_keeps_no_adjacent_free_witness:
  "\<exists>rs s s'.
     run pf32 [Init 3 4096 1024, Alloc 4, Alloc 4, Alloc 4, Free 4104, Free 4120] start
       = Some (rs, s) \<and>
     platform_ok pf32 \<and> chain (heap s) (list_head s) [4096, 4104, 4112] \<and>
     no_adjacent_free (heap s) [4096, 4104, 4112] \<and>
     size_status (heap s 4096) = 4 \<and> size_status (heap s 4104) = 5 \<and>
     size_status (heap s 4112) = 4064 \<and>
     total pf32 (heap s) [4096, 4104, 4112] = 4096 \<and>
     Mem_Free pf32 4112 s = Some (0, s') \<and>
     chain (heap s') (list_head s') [4096] \<and> no_adjacent_free (heap s') [4096] \<and>
     size_status (heap s' 4096) = 4088 \<and> total pf32 (heap s') [4096] = 4096"
proof -
  from merge_trace obtain rs s s' where
    run: "run pf32 [Init 3 4096 1024, Alloc 4, Alloc 4, Alloc 4, Free 4104, Free 4120] start
       = Some (rs, s)"
    and fr: "Mem_Free pf32 4112 s = Some (0, s')"
    and b: "blocks 4 s = [(4096, 4, 4104), (4104, 5, 4112), (4112, 4064, NULL)]"
    by (auto simp: Option.bind_eq_Some_conv)
  from b have s: "list_head s = 4096"
    "next (heap s 4096) = 4104" "size_status (heap s 4096) = 4"
    "next (heap s 4104) = 4112" "size_status (heap s 4104) = 5"
    "next (heap s 4112) = NULL" "size_status (heap s 4112) = 4064"
    by (auto simp: blocks_def eval_nat_numeral split: if_splits)
  have pf: "platform_ok pf32"
    by (simp add: platform_ok_def pf32_def)
  have c: "chain (heap s) (list_head s) [4096, 4104, 4112]"
    by (simp add: chain_def s) (simp add: NULL_def)
  have n: "no_adjacent_free (heap s) [4096, 4104, 4112]"
    by (simp add: s busy_def)
  have t: "total pf32 (heap s) [4096, 4104, 4112] = 4096"
    by (simp add: s payload_def busy_def pf32_def)
  have d: "[4096, 4104, 4112] = pre @ 4104 # post \<longleftrightarrow> pre = [4096] \<and> post = [4112]"
    for pre post :: "addr list"
    by (auto simp: append_eq_Cons_conv Cons_eq_append_conv)
  from free_keeps_no_adjacent_free [OF pf c n fr]
  have "chain (heap s') (list_head s') [4096] \<and> no_adjacent_free (heap s') [4096] \<and>
     size_status (heap s' 4096) = 4088 \<and> total pf32 (heap s') [4096] = 4096"
    by (auto simp: pf32_def d after_free_def absorber_def merged_size_def freed_size_def
        s busy_def payload_def)
  with run pf c n fr s t show ?thesis by blast
qed


section \<open>C9: payload sizes are multiples of 4\<close>

lemma four_even: "4 dvd (k :: int) \<Longrightarrow> even k"
  by (rule dvd_trans [of 2 4 k]) simp_all

lemma size_ok_free: "even v \<Longrightarrow> size_ok v \<longleftrightarrow> 0 \<le> v \<and> 4 dvd v"
  by (simp add: size_ok_def payload_def busy_iff_odd)

lemma size_ok_busy: "4 dvd k \<Longrightarrow> 0 \<le> k \<Longrightarrow> size_ok (k + 1)"
  by (simp add: size_ok_def payload_def busy_iff_odd four_even)

lemma size_ok_add:
  assumes "size_ok v" "4 dvd k" "0 \<le> k"
  shows "size_ok (v + k)"
proof -
  have "even k" using assms(2) by (rule four_even)
  then have "payload (v + k) = payload v + k"
    by (simp add: payload_def busy_iff_odd)
  with assms show ?thesis by (simp add: size_ok_def)
qed

lemma size_ok_unflag:
  assumes "size_ok v" "c_mod v 2 = 1"
  shows "size_ok (v - 1)"
proof -
  from assms(2) have "odd v" by (simp add: c_mod_2_eq_1)
  with assms(1) show ?thesis
    by (simp add: size_ok_def payload_def busy_iff_odd)
qed


lemma alloc_loop_result:
  assumes "alloc_loop pf sb4 swh h a = Some y"
  shows "y = (NULL, h) \<or>
         (\<exists>x. listed h a x \<and> fits swh (size_status (h x)) \<and> y = carve pf sb4 swh h x)"
proof (rule alloc_loop.raw_induct [where P = "\<lambda>pf sb4 swh h a y. y = (NULL, h) \<or>
         (\<exists>x. listed h a x \<and> fits swh (size_status (h x)) \<and> y = carve pf sb4 swh h x)",
       OF _ assms], goal_cases)
  case (1 loop pf sb4 swh h a y)
  from 1(2) have a: "a \<noteq> NULL" by (auto split: if_splits)
  show ?case
  proof (cases "fits swh (size_status (h a))")
    case True
    with 1(2) a have "y = carve pf sb4 swh h a"
      by (auto simp: fits_def split: if_splits)
    with True a show ?thesis by (auto intro: listed.here)
  next
    case False
    show ?thesis
    proof (cases "next (h a) = NULL")
      case True
      with 1(2) a False show ?thesis
        by (auto simp: fits_def split: if_splits)
    next
      case n: False
      with 1(2) a False have "loop pf sb4 swh h (next (h a)) = Some y"
        by (auto simp: fits_def split: if_splits)
      from 1(1) [OF this] a show ?thesis
        by (auto intro: listed.further)
    qed
  qed
qed

lemma listed_not_NULL: "listed h a x \<Longrightarrow> a \<noteq> NULL"
  by (cases rule: listed.cases) auto

lemma listed_in:
  "listed h a x \<Longrightarrow> well_sized W h \<Longrightarrow> a \<in> W \<Longrightarrow> x \<in> W"
proof (induction rule: listed.induct)
  case (further a x)
  from further.hyps(2) have "next (h a) \<noteq> NULL" by (rule listed_not_NULL)
  with further.prems have "next (h a) \<in> W" by (auto simp: well_sized_def)
  with further show ?case by simp
qed simp


lemma well_sized_carve:
  assumes ws: "well_sized W h" and x: "x \<in> W" and fit: "fits swh (size_status (h x))"
    and sb4: "4 dvd sb4" "0 \<le> sb4" and swh: "swh = sb4 + hdr pf"
    and H: "0 < hdr pf" "4 dvd hdr pf"
  shows "\<exists>W'. W \<subseteq> W' \<and> well_sized W' (snd (carve pf sb4 swh h x))"
proof -
  define S where "S = size_status (h x)"
  from ws x have x0: "0 < x" and okS: "size_ok S"
    and nx: "next (h x) = NULL \<or> next (h x) \<in> W"
    by (auto simp: well_sized_def S_def)
  from fit have "even S" "swh \<le> S"
    by (simp_all add: fits_def c_mod_2_eq_0 S_def)
  with okS have S: "4 dvd S" "swh \<le> S" "0 \<le> S"
    by (simp_all add: size_ok_free)
  have ok1: "size_ok (sb4 + 1)" "size_ok (S + 1)"
    using sb4 S by (simp_all add: size_ok_busy)
  show ?thesis
  proof (cases "hdr pf + 4 \<le> S - swh")
    case True
    define nb where "nb = x + c_div swh (hdr pf) * hdr pf"
    have nb: "x < nb" using c_div_pos(1) [of "hdr pf" swh] H sb4 by (simp add: nb_def swh)
    have big: "hdr pf + 4 \<le> size_status (h x) - swh" using True by (simp add: S_def)
    have "nb \<noteq> x" using nb by simp
    from carve_split [of pf h x swh nb sb4, OF big nb_def this]
    have c: "snd (carve pf sb4 swh h x) =
        h(nb := \<lparr>next = next (h x), size_status = S - swh\<rparr>,
          x := \<lparr>next = nb, size_status = sb4 + 1\<rparr>)"
      by (simp add: S_def)
    have d: "4 dvd S - swh" using S(1) sb4(1) H(2) by (simp add: swh)
    then have "even (S - swh)" by (rule four_even)
    moreover have "0 \<le> S - swh" using True H(1) by simp
    ultimately have ok2: "size_ok (S - swh)"
      using d by (simp only: size_ok_free simp_thms)
    have "well_sized (insert nb W) (snd (carve pf sb4 swh h x))"
      unfolding c well_sized_def
    proof (intro ballI)
      fix a assume a: "a \<in> insert nb W"
      consider "a = x" | "a = nb" "a \<noteq> x" | "a \<in> W" "a \<noteq> x" "a \<noteq> nb"
        using a by auto
      then show "0 < a \<and>
          size_ok (size_status ((h(nb := \<lparr>next = next (h x), size_status = S - swh\<rparr>,
            x := \<lparr>next = nb, size_status = sb4 + 1\<rparr>)) a)) \<and>
          (next ((h(nb := \<lparr>next = next (h x), size_status = S - swh\<rparr>,
            x := \<lparr>next = nb, size_status = sb4 + 1\<rparr>)) a) = NULL \<or>
           next ((h(nb := \<lparr>next = next (h x), size_status = S - swh\<rparr>,
            x := \<lparr>next = nb, size_status = sb4 + 1\<rparr>)) a) \<in> insert nb W)"
      proof cases
        case 1
        then show ?thesis using x0 ok1 by simp
      next
        case 2
        then show ?thesis using x0 nb ok2 nx by auto
      next
        case 3
        then show ?thesis using ws by (auto simp: well_sized_def)
      qed
    qed
    then show ?thesis by blast
  next
    case False
    then have "\<not> hdr pf + 4 \<le> size_status (h x) - swh" by (simp add: S_def)
    from carve_whole [of pf h x swh sb4, OF this]
    have c: "snd (carve pf sb4 swh h x) =
        h(x := \<lparr>next = next (h x), size_status = S + 1\<rparr>)"
      by (simp add: S_def)
    have "well_sized W (snd (carve pf sb4 swh h x))"
      using ws x0 ok1 nx unfolding c well_sized_def by auto
    then show ?thesis by blast
  qed
qed

lemma well_sized_unflag:
  assumes "well_sized W h" "c_mod (size_status (h b)) 2 = 1"
  shows "well_sized W (set_size h b (size_status (h b) + - 1))"
proof -
  have "size_ok (size_status (h b) - 1)" if "size_ok (size_status (h b))"
    using that assms(2) by (rule size_ok_unflag)
  then show ?thesis
    using assms(1) by (auto simp: well_sized_def set_size_apply)
qed

lemma well_sized_upd:
  assumes ws: "well_sized W h"
    and b: "b \<in> W \<Longrightarrow> size_ok v \<and> (n = NULL \<or> n \<in> W)"
  shows "well_sized W (h(b := \<lparr>next = n, size_status = v\<rparr>))"
  using assms by (auto simp: well_sized_def)

lemma well_sized_forward:
  assumes ws: "well_sized W h" and fw: "forward pf h b = Some h'"
    and H: "0 \<le> hdr pf" "4 dvd hdr pf"
  shows "well_sized W h'"
proof (cases "h' = h")
  case False
  with fw have n: "next (h b) \<noteq> NULL" "even (size_status (h (next (h b))))"
    and c: "coalesce_next pf h b = Some h'"
    by (auto simp: forward_def c_mod_2_eq_0 split: if_splits)
  show ?thesis
    unfolding coalesce_next_eq [OF c]
  proof (rule well_sized_upd [OF ws])
    assume b: "b \<in> W"
    with ws n have nw: "next (h b) \<in> W" by (auto simp: well_sized_def)
    with ws b have "size_ok (size_status (h b))" "size_ok (size_status (h (next (h b))))"
      "next (h (next (h b))) = NULL \<or> next (h (next (h b))) \<in> W"
      by (auto simp: well_sized_def)
    moreover from this(2) n(2) H
    have "4 dvd size_status (h (next (h b))) + hdr pf"
      "0 \<le> size_status (h (next (h b))) + hdr pf"
      by (simp_all add: size_ok_free)
    with calculation(1)
    have "size_ok (size_status (h b) + (size_status (h (next (h b))) + hdr pf))"
      by (rule size_ok_add)
    ultimately show "size_ok (size_status (h b) + (size_status (h (next (h b))) + hdr pf)) \<and>
        (next (h (next (h b))) = NULL \<or> next (h (next (h b))) \<in> W)"
      by simp
  qed
qed (use ws in simp)

lemma well_sized_backward:
  assumes ws: "well_sized W h" and bw: "backward pf h q = Some h'"
    and H: "0 \<le> hdr pf" "4 dvd hdr pf"
  shows "well_sized W h'"
proof (cases "h' = h")
  case False
  with bw have e: "even (size_status (h q))" and c: "coalesce_prev pf h q = Some h'"
    by (auto simp: backward_def c_mod_2_eq_0 split: if_splits)
  note n = coalesce_prev_eq(1) [OF c]
  show ?thesis
    unfolding coalesce_prev_eq(2) [OF c]
  proof (rule well_sized_upd [OF ws])
    assume q: "q \<in> W"
    with ws n have nw: "next (h q) \<in> W" by (auto simp: well_sized_def)
    with ws q have "size_ok (size_status (h q))" "size_ok (size_status (h (next (h q))))"
      "next (h (next (h q))) = NULL \<or> next (h (next (h q))) \<in> W"
      by (auto simp: well_sized_def)
    moreover from this(1) e H
    have "4 dvd size_status (h q) + hdr pf" "0 \<le> size_status (h q) + hdr pf"
      by (simp_all add: size_ok_free)
    with calculation(2)
    have "size_ok (size_status (h (next (h q))) + (size_status (h q) + hdr pf))"
      by (rule size_ok_add)
    then have "size_ok (size_status (h q) + size_status (h (next (h q))) + hdr pf)"
      by (simp add: add.commute add.left_commute)
    ultimately show "size_ok (size_status (h q) + size_status (h (next (h q))) + hdr pf) \<and>
        (next (h (next (h q))) = NULL \<or> next (h (next (h q))) \<in> W)"
      by simp
  qed
qed (use ws in simp)

lemma well_sized_Mem_Free:
  assumes ws: "well_sized W (heap s)" and fr: "Mem_Free pf p s = Some (r, s')"
    and H: "0 \<le> hdr pf" "4 dvd hdr pf"
  shows "well_sized W (heap s')"
proof -
  from Mem_Free_result [OF fr] show ?thesis
  proof
    assume "r = - 1 \<and> s' = s"
    with ws show ?thesis by simp
  next
    define b where "b = p - hdr pf"
    define h1 where "h1 = set_size (heap s) b (size_status (heap s b) + - 1)"
    assume "r = 0 \<and> p \<noteq> NULL \<and> p - hdr pf \<noteq> NULL \<and>
      c_mod (size_status (heap s (p - hdr pf))) 2 = 1"
    then have p: "p \<noteq> NULL" "b \<noteq> NULL" "c_mod (size_status (heap s b)) 2 = 1"
      by (simp_all add: b_def)
    have w1: "well_sized W h1"
      unfolding h1_def using ws p(3) by (rule well_sized_unflag)
    from fr p obtain h2 h3 q where fw: "forward pf h1 b = Some h2"
      and bw: "h3 = h2 \<or> backward pf h2 q = Some h3" and s': "s' = s\<lparr>heap := h3\<rparr>"
      unfolding h1_def b_def
      by (auto simp: Mem_Free_def Let_def split: if_splits Option.bind_splits)
    have w2: "well_sized W h2" using w1 fw H by (rule well_sized_forward)
    from bw have "well_sized W h3"
    proof
      assume "backward pf h2 q = Some h3"
      with w2 show ?thesis using H by (rule well_sized_backward)
    qed (use w2 in simp)
    then show ?thesis by (simp add: s')
  qed
qed

lemma well_sized_Mem_Alloc:
  assumes ws: "well_sized W (heap s)" and hd: "list_head s \<in> W"
    and al: "Mem_Alloc pf sz s = Some (p, s')"
    and H: "0 < hdr pf" "4 dvd hdr pf"
  shows "\<exists>W'. W \<subseteq> W' \<and> well_sized W' (heap s')"
proof (cases "sz \<le> 0")
  case True
  with al ws show ?thesis by (auto simp: Mem_Alloc_def)
next
  case False
  then have sz: "0 < sz" by simp
  from Mem_Alloc_Some [OF al sz]
  have l: "alloc_loop pf (rounded4 sz) (rounded4 sz + hdr pf) (heap s) (list_head s)
      = Some (p, heap s')" by simp
  from alloc_loop_result [OF l] show ?thesis
  proof
    assume "(p, heap s') = (NULL, heap s)"
    with ws show ?thesis by auto
  next
    assume "\<exists>x. listed (heap s) (list_head s) x \<and>
      fits (rounded4 sz + hdr pf) (size_status (heap s x)) \<and>
      (p, heap s') = carve pf (rounded4 sz) (rounded4 sz + hdr pf) (heap s) x"
    then obtain x where x: "listed (heap s) (list_head s) x"
      "fits (rounded4 sz + hdr pf) (size_status (heap s x))"
      and c: "heap s' = snd (carve pf (rounded4 sz) (rounded4 sz + hdr pf) (heap s) x)"
      by (metis snd_conv)
    have "x \<in> W" using x(1) ws hd by (rule listed_in)
    from well_sized_carve [OF ws this x(2) _ _ refl H] rounded4_least [of sz] sz
    show ?thesis by (simp add: c)
  qed
qed

lemma well_sized_Mem_Init:
  assumes pf: "platform_ok pf" and sp: "0 < space_ptr"
    and init: "Mem_Init pf fd space_ptr n s0 = Some (0, s)"
  shows "list_head s = space_ptr \<and> well_sized {space_ptr} (heap s)"
proof -
  note i = Mem_Init_ok [OF init]
  from pf have H: "0 < hdr pf" "4 dvd hdr pf" "hdr pf \<le> pagesize pf" "4 dvd pagesize pf"
    by (simp_all add: platform_ok_def)
  have R: "n \<le> region_size pf n" "pagesize pf dvd region_size pf n"
    using region_size_bounds [of n pf] i(2) H by simp_all
  have "0 < region_size pf n" using R(1) i(2) by simp
  with R(2) have "pagesize pf \<le> region_size pf n" by (rule zdvd_imp_le)
  moreover have "4 dvd region_size pf n" using H(4) R(2) by (rule dvd_trans)
  ultimately have "4 dvd region_size pf n - hdr pf" "0 \<le> region_size pf n - hdr pf"
    using H by simp_all
  moreover from this(1) have "even (region_size pf n - hdr pf)" by (rule four_even)
  ultimately have "size_ok (region_size pf n - hdr pf)"
    by (simp only: size_ok_free simp_thms)
  then show ?thesis
    using sp by (simp add: i(1) well_sized_def)
qed

lemma reachable_well_sized:
  assumes pf: "platform_ok pf" and r: "reachable pf s"
  shows "\<exists>W. list_head s \<in> W \<and> well_sized W (heap s)"
  using r
proof (induction rule: reachable.induct)
  case (first s0 space_ptr fd n s)
  from well_sized_Mem_Init [OF pf first(2,3)] show ?case by blast
next
  case (init s fd space_ptr n r s')
  from init(1) have "allocated_once s = 1" by (rule reachable_allocated_once)
  with init(2) have "s' = s" by (simp add: Mem_Init_again)
  with init.IH show ?case by simp
next
  case (alloc s n p s')
  from pf have H: "0 < hdr pf" "4 dvd hdr pf" by (simp_all add: platform_ok_def)
  from alloc.IH obtain W where W: "list_head s \<in> W" "well_sized W (heap s)" by blast
  from well_sized_Mem_Alloc [OF W(2,1) alloc(2) H] Mem_Alloc_globals [OF alloc(2)] W(1)
  show ?case by auto
next
  case (free s p r s')
  from pf have H: "0 \<le> hdr pf" "4 dvd hdr pf" by (simp_all add: platform_ok_def)
  from free.IH obtain W where W: "list_head s \<in> W" "well_sized W (heap s)" by blast
  from well_sized_Mem_Free [OF W(2) free(2) H] Mem_Free_globals [OF free(2)] W(1)
  show ?case by auto
qed


text \<open>
  C9. In every state reached after a successful \<^verbatim>\<open>Mem_Init\<close>, whatever calls of
  \<^verbatim>\<open>Mem_Init\<close>, \<^verbatim>\<open>Mem_Alloc\<close> and \<^verbatim>\<open>Mem_Free\<close> have followed, every block that a walk from
  the list head meets has a payload size (\<open>size_status\<close> when free, \<open>size_status - 1\<close> when
  busy) that is a non-negative multiple of 4.
\<close>

theorem payload_multiple_of_4:
  assumes "platform_ok pf" and "reachable pf s" and "listed (heap s) (list_head s) a"
  shows "0 \<le> payload (size_status (heap s a)) \<and> 4 dvd payload (size_status (heap s a))"
proof -
  from reachable_well_sized [OF assms(1,2)] obtain W where
    W: "list_head s \<in> W" "well_sized W (heap s)" by blast
  have "a \<in> W" using assms(3) W(2,1) by (rule listed_in)
  with W(2) show ?thesis by (auto simp: well_sized_def size_ok_def)
qed


theorem payload_multiple_of_4_witness:
  "\<exists>s. platform_ok pf32 \<and> reachable pf32 s \<and> listed (heap s) (list_head s) 4200 \<and>
       0 \<le> payload (size_status (heap s 4200)) \<and> 4 dvd payload (size_status (heap s 4200))"
proof -
  from alloc_100 obtain s where
    a: "Mem_Alloc pf32 100 booted = Some (4104, s)" and n: "next (heap s 4096) = 4200"
    by (auto split: option.splits)
  have pf: "platform_ok pf32"
    by (simp add: platform_ok_def pf32_def)
  have r: "reachable pf32 s"
    using reachable_booted a by (rule reachable.alloc)
  have "list_head s = 4096"
    using Mem_Alloc_globals [OF a] by (simp add: booted_def)
  moreover have "listed (heap s) 4096 4200"
    by (rule listed.further, simp add: NULL_def, simp add: n, rule listed.here)
       (simp add: NULL_def)
  ultimately have l: "listed (heap s) (list_head s) 4200" by simp
  from payload_multiple_of_4 [OF pf r l] pf r l show ?thesis by blast
qed

section \<open>A failing Mem_Alloc in a reachable state\<close>

text \<open>
  In every state reached by calls, cyclic lists included, a \<^verbatim>\<open>Mem_Alloc\<close> that returns
  \<open>NULL\<close> has left the state as it was: the blocks of the search have addresses above 0,
  so an address past a header is never \<open>NULL\<close>.
\<close>

lemma Mem_Alloc_failure_unchanged:
  assumes pf: "platform_ok pf" and r: "reachable pf s"
    and al: "Mem_Alloc pf sz s = Some (NULL, s')"
  shows "s' = s"
proof (cases "sz \<le> 0")
  case True
  with al show ?thesis by (simp add: Mem_Alloc_def)
next
  case False
  then have sz: "0 < sz" by simp
  from pf have H: "0 < hdr pf" by (simp add: platform_ok_def)
  from Mem_Alloc_Some [OF al sz]
  have l: "alloc_loop pf (rounded4 sz) (rounded4 sz + hdr pf) (heap s) (list_head s)
      = Some (NULL, heap s')" and s': "s' = s\<lparr>heap := heap s'\<rparr>"
    by simp_all
  from reachable_well_sized [OF pf r] obtain W where
    W: "list_head s \<in> W" "well_sized W (heap s)" by blast
  from alloc_loop_result [OF l] have "heap s' = heap s"
  proof
    assume "(NULL, heap s') = (NULL, heap s)"
    then show ?thesis by simp
  next
    assume "\<exists>x. listed (heap s) (list_head s) x \<and>
      fits (rounded4 sz + hdr pf) (size_status (heap s x)) \<and>
      (NULL, heap s') = carve pf (rounded4 sz) (rounded4 sz + hdr pf) (heap s) x"
    then obtain x where x: "listed (heap s) (list_head s) x"
      and c: "(NULL, heap s') = carve pf (rounded4 sz) (rounded4 sz + hdr pf) (heap s) x"
      by blast
    have "x \<in> W" using x W(2,1) by (rule listed_in)
    with W(2) have "0 < x" by (simp add: well_sized_def)
    moreover have "x + hdr pf = NULL"
      using fst_carve [of pf "rounded4 sz" "rounded4 sz + hdr pf" "heap s" x] c [symmetric]
      by simp
    ultimately show ?thesis using H by (simp add: NULL_def)
  qed
  with s' show ?thesis by simp
qed

end
